theory Spec2Isabelle
  imports Main "HOL-Library.Log_Nat"
begin

section \<open>JavaScript numbers\<close>

text \<open>
  A JavaScript \<open>number\<close> is an IEEE 754 binary64 value: a finite value is a rational
  \<open>m * 2 ^ e\<close> with \<open>\<bar>m\<bar> < 2 ^ 53\<close> and \<open>- 1074 \<le> e\<close>, next to \<open>NaN\<close> and the two
  infinities. Every arithmetic operation computes the exact rational result and rounds it
  to the nearest representable value, ties to the even significand (\<open>rnd\<close>). The two zeros
  are identified: the code below never divides by a computed zero and never inspects the
  sign of a zero.
\<close>

datatype jsnum = NaN | PInf | NInf | Fin rat

text \<open>The binary exponent of a positive rational: \<open>2 ^ expo x \<le> x < 2 ^ (expo x + 1)\<close>.\<close>

definition expo :: "rat \<Rightarrow> int" where
  "expo x = (if 1 \<le> x then bitlen \<lfloor>x\<rfloor> - 1 else - bitlen (\<lceil>1 / x\<rceil> - 1))"

definition round_half_even :: "rat \<Rightarrow> int" where
  "round_half_even x =
     (let f = \<lfloor>x\<rfloor>; d = x - of_int f
      in if d < 1 / 2 then f else if 1 / 2 < d then f + 1 else if even f then f else f + 1)"

text \<open>The spacing of the doubles around \<open>x\<close>: 52 fraction bits, subnormal below \<open>2 ^ - 1022\<close>.\<close>

definition quantum :: "rat \<Rightarrow> rat" where
  "quantum x = 2 powi (max (expo \<bar>x\<bar>) (- 1022) - 52)"

definition round_fin :: "rat \<Rightarrow> rat" where
  "round_fin x = (if x = 0 then 0 else of_int (round_half_even (x / quantum x)) * quantum x)"

definition rnd :: "rat \<Rightarrow> jsnum" where
  "rnd x =
     (let y = round_fin x
      in if 2 ^ 1024 \<le> y then PInf else if y \<le> - (2 ^ 1024) then NInf else Fin y)"

text \<open>A decimal literal of the source denotes the double nearest to it.\<close>

definition lit :: "rat \<Rightarrow> jsnum" where
  "lit x = rnd x"

fun fneg :: "jsnum \<Rightarrow> jsnum" where
  "fneg NaN = NaN"
| "fneg PInf = NInf"
| "fneg NInf = PInf"
| "fneg (Fin a) = Fin (- a)"

fun fadd :: "jsnum \<Rightarrow> jsnum \<Rightarrow> jsnum" where
  "fadd NaN y = NaN"
| "fadd x NaN = NaN"
| "fadd (Fin a) (Fin b) = rnd (a + b)"
| "fadd PInf NInf = NaN"
| "fadd NInf PInf = NaN"
| "fadd PInf y = PInf"
| "fadd NInf y = NInf"
| "fadd x PInf = PInf"
| "fadd x NInf = NInf"

definition fsub :: "jsnum \<Rightarrow> jsnum \<Rightarrow> jsnum" where
  "fsub x y = fadd x (fneg y)"

fun fmul :: "jsnum \<Rightarrow> jsnum \<Rightarrow> jsnum" where
  "fmul NaN y = NaN"
| "fmul x NaN = NaN"
| "fmul (Fin a) (Fin b) = rnd (a * b)"
| "fmul (Fin a) y = (if a = 0 then NaN else if 0 < a then y else fneg y)"
| "fmul x (Fin b) = (if b = 0 then NaN else if 0 < b then x else fneg x)"
| "fmul PInf y = y"
| "fmul NInf y = fneg y"

fun fdiv :: "jsnum \<Rightarrow> jsnum \<Rightarrow> jsnum" where
  "fdiv NaN y = NaN"
| "fdiv x NaN = NaN"
| "fdiv (Fin a) (Fin b) =
     (if b = 0 then (if a = 0 then NaN else if 0 < a then PInf else NInf) else rnd (a / b))"
| "fdiv (Fin a) y = Fin 0"
| "fdiv x (Fin b) = (if 0 \<le> b then x else fneg x)"
| "fdiv x y = NaN"

text \<open>The relational operators: every comparison with \<open>NaN\<close> is false.\<close>

fun js_le :: "jsnum \<Rightarrow> jsnum \<Rightarrow> bool" where
  "js_le NaN y = False"
| "js_le x NaN = False"
| "js_le (Fin a) (Fin b) = (a \<le> b)"
| "js_le NInf y = True"
| "js_le x PInf = True"
| "js_le x y = False"

fun js_lt :: "jsnum \<Rightarrow> jsnum \<Rightarrow> bool" where
  "js_lt NaN y = False"
| "js_lt x NaN = False"
| "js_lt (Fin a) (Fin b) = (a < b)"
| "js_lt PInf y = False"
| "js_lt x NInf = False"
| "js_lt x y = True"

definition js_ge :: "jsnum \<Rightarrow> jsnum \<Rightarrow> bool" where
  "js_ge x y = js_le y x"

definition js_gt :: "jsnum \<Rightarrow> jsnum \<Rightarrow> bool" where
  "js_gt x y = js_lt y x"

definition isNaN :: "jsnum \<Rightarrow> bool" where
  "isNaN x = (x = NaN)"

text \<open>\<open>Math.round\<close>: the nearest integer, a tie going towards \<open>+\<infinity>\<close>.\<close>

fun math_round :: "jsnum \<Rightarrow> jsnum" where
  "math_round (Fin a) = Fin (of_int \<lfloor>a + 1 / 2\<rfloor>)"
| "math_round x = x"

fun math_abs :: "jsnum \<Rightarrow> jsnum" where
  "math_abs (Fin a) = Fin \<bar>a\<bar>"
| "math_abs NInf = PInf"
| "math_abs x = x"

subsection \<open>Number.prototype.toFixed\<close>

fun showNat :: "nat \<Rightarrow> string" where
  "showNat n = (if n < 10 then [''0123456789'' ! n] else showNat (n div 10) @ [''0123456789'' ! (n mod 10)])"

declare showNat.simps [simp del]

text \<open>
  \<open>toFixed f\<close> of ECMAScript: the decimal with \<open>f\<close> fraction digits nearest to the exact
  value of the double, the larger one on a tie. For a magnitude of \<open>10 ^ 21\<close> or more it
  hands over to the host's \<open>Number::toString\<close>, which is the parameter \<open>numberToString\<close>.
\<close>

definition toFixed :: "(rat \<Rightarrow> string) \<Rightarrow> nat \<Rightarrow> jsnum \<Rightarrow> string" where
  "toFixed numberToString f x =
     (case x of
        NaN \<Rightarrow> ''NaN''
      | PInf \<Rightarrow> ''Infinity''
      | NInf \<Rightarrow> ''-Infinity''
      | Fin a \<Rightarrow>
          (let s = (if a < 0 then ''-'' else ''''); b = \<bar>a\<bar>
           in if 10 ^ 21 \<le> b then s @ numberToString b
              else
                (let n = nat \<lfloor>b * 10 ^ f + 1 / 2\<rfloor>;
                     m = showNat n;
                     z = (if length m \<le> f then replicate (f + 1 - length m) (CHR ''0'') @ m else m);
                     k = length z
                 in if f = 0 then s @ m
                    else s @ take (k - f) z @ ''.'' @ drop (k - f) z)))"

section \<open>The calibration table and the prediction record\<close>

record RankEntry =
  score :: jsnum
  rank :: jsnum

definition kcet2025RankTable :: "RankEntry list" where
  "kcet2025RankTable =
     [\<lparr>score = lit (9622 / 100), rank = Fin 81\<rparr>,
      \<lparr>score = lit (9406 / 100), rank = Fin 308\<rparr>,
      \<lparr>score = lit (9000 / 100), rank = Fin 1245\<rparr>,
      \<lparr>score = lit (8500 / 100), rank = Fin 3804\<rparr>,
      \<lparr>score = lit (8000 / 100), rank = Fin 8500\<rparr>,
      \<lparr>score = lit (7500 / 100), rank = Fin 16000\<rparr>,
      \<lparr>score = lit (7000 / 100), rank = Fin 30000\<rparr>,
      \<lparr>score = lit (6500 / 100), rank = Fin 50000\<rparr>,
      \<lparr>score = lit (6000 / 100), rank = Fin 80000\<rparr>,
      \<lparr>score = lit (5000 / 100), rank = Fin 155000\<rparr>,
      \<lparr>score = lit (4000 / 100), rank = Fin 235000\<rparr>,
      \<lparr>score = lit (3500 / 100), rank = Fin 259000\<rparr>]"

record RankPrediction =
  low :: jsnum
  medium :: jsnum
  high :: jsnum
  composite :: jsnum
  percentile :: "string option"
  rankBand :: "string option"
  competitionLevel :: "string option"

datatype error = Error string | TypeError

section \<open>The classifiers\<close>

definition getRankBand :: "jsnum \<Rightarrow> string" where
  "getRankBand r =
     (if js_le r (Fin 200) then ''Elite''
      else if js_le r (Fin 1200) then ''Excellent''
      else if js_le r (Fin 3000) then ''Very Good''
      else if js_le r (Fin 8000) then ''Good''
      else if js_le r (Fin 16000) then ''Above Average''
      else if js_le r (Fin 30000) then ''Average''
      else if js_le r (Fin 50000) then ''Below Average''
      else if js_le r (Fin 80000) then ''Lower''
      else if js_le r (Fin 155000) then ''Poor''
      else ''Very Poor'')"

definition getCompetitionLevel :: "jsnum \<Rightarrow> string" where
  "getCompetitionLevel s =
     (if js_ge s (Fin 95) then ''Extremely High''
      else if js_ge s (Fin 90) then ''Very High''
      else if js_ge s (Fin 85) then ''High''
      else if js_ge s (Fin 80) then ''Moderately High''
      else if js_ge s (Fin 75) then ''Moderate''
      else if js_ge s (Fin 70) then ''Moderately Low''
      else if js_ge s (Fin 60) then ''Low''
      else ''Very Low'')"

definition calculatePercentile :: "(rat \<Rightarrow> string) \<Rightarrow> jsnum \<Rightarrow> string" where
  "calculatePercentile numberToString r =
     (let totalCandidates = Fin 260000;
          percentile = toFixed numberToString 2
                         (fmul (fdiv (fsub totalCandidates r) totalCandidates) (Fin 100))
      in percentile @ ''%'')"

section \<open>predictKCETRank\<close>

text \<open>The weighted composite of the two marks, as the first two lines of the function compute it.\<close>

definition combinedScore :: "jsnum \<Rightarrow> jsnum \<Rightarrow> jsnum" where
  "combinedScore cet puc =
     (let kcetPercentage = fmul (fdiv cet (Fin 180)) (Fin 100)
      in fadd (fmul (lit (6 / 10)) kcetPercentage) (fmul (lit (4 / 10)) puc))"

text \<open>The prediction built from a \<open>medium\<close> rank, as the interpolation and the fallback build it.\<close>

definition banded :: "(rat \<Rightarrow> string) \<Rightarrow> jsnum \<Rightarrow> jsnum \<Rightarrow> RankPrediction" where
  "banded numberToString m c =
     \<lparr>low = math_round (fmul m (lit (95 / 100))),
      medium = m,
      high = math_round (fmul m (lit (105 / 100))),
      composite = c,
      percentile = Some (calculatePercentile numberToString m),
      rankBand = Some (getRankBand m),
      competitionLevel = Some (getCompetitionLevel c)\<rparr>"

text \<open>
  The interpolation loop over the adjacent pairs \<open>(table[i], table[i + 1])\<close>, leaving at
  the first pair that brackets the composite; \<open>None\<close> is \<open>result\<close> still being \<open>null\<close>.
\<close>

fun interpolate :: "(rat \<Rightarrow> string) \<Rightarrow> RankEntry list \<Rightarrow> jsnum \<Rightarrow> RankPrediction option" where
  "interpolate numberToString (currentEntry # nextEntry # rest) c =
     (if js_le c (score currentEntry) \<and> js_ge c (score nextEntry) then
        (let scoreDiff = fsub (score currentEntry) (score nextEntry);
             rankDiff = fsub (rank nextEntry) (rank currentEntry);
             scoreOffset = fsub (score currentEntry) c;
             interpolatedRank = fadd (rank currentEntry) (fmul (fdiv scoreOffset scoreDiff) rankDiff)
         in Some (banded numberToString (math_round interpolatedRank) c))
      else interpolate numberToString (nextEntry # rest) c)"
| "interpolate numberToString es c = None"

text \<open>The three-way branch on the composite: the two extreme cases, else the loop.\<close>

definition firstPass :: "(rat \<Rightarrow> string) \<Rightarrow> jsnum \<Rightarrow> RankPrediction option" where
  "firstPass numberToString c =
     (if js_ge c (score (hd kcet2025RankTable)) then
        Some \<lparr>low = Fin 1, medium = Fin 1, high = Fin 1, composite = c,
              percentile = Some ''Top 0.01%'', rankBand = Some ''Elite'',
              competitionLevel = Some ''Extremely High''\<rparr>
      else if js_le c (score (last kcet2025RankTable)) then
        Some \<lparr>low = Fin 250000, medium = Fin 260000, high = Fin 270000, composite = c,
              percentile = Some ''Bottom 20%'', rankBand = Some ''Lower'',
              competitionLevel = Some ''Moderate''\<rparr>
      else interpolate numberToString kcet2025RankTable c)"

text \<open>The fallback: the entry whose score is nearest to the composite, the earliest on a tie.\<close>

fun closestEntry :: "RankEntry list \<Rightarrow> jsnum \<Rightarrow> RankEntry \<Rightarrow> jsnum \<Rightarrow> RankEntry" where
  "closestEntry [] c closest minDiff = closest"
| "closestEntry (e # es) c closest minDiff =
     (let diff = math_abs (fsub c (score e))
      in if js_lt diff minDiff then closestEntry es c e diff
         else closestEntry es c closest minDiff)"

definition closestMatch :: "(rat \<Rightarrow> string) \<Rightarrow> jsnum \<Rightarrow> RankPrediction" where
  "closestMatch numberToString c =
     (let closest0 = hd kcet2025RankTable;
          minDiff0 = math_abs (fsub c (score closest0));
          closest = closestEntry (tl kcet2025RankTable) c closest0 minDiff0
      in banded numberToString (math_round (rank closest)) c)"

definition predictKCETRank :: "(rat \<Rightarrow> string) \<Rightarrow> jsnum \<Rightarrow> jsnum \<Rightarrow> error + RankPrediction" where
  "predictKCETRank numberToString cet puc =
     (let c = combinedScore cet puc
      in if isNaN c \<or> js_lt c (Fin 0) \<or> js_gt c (Fin 100)
         then Inl (Error ''Please enter valid marks (KCET: 0-180, PUC: 0-100)'')
         else (case firstPass numberToString c of
                 Some result \<Rightarrow> Inr result
               | None \<Rightarrow> Inr (closestMatch numberToString c)))"

section \<open>getCollegeSuggestions\<close>

text \<open>
  An entry of a suggestion table carries its threshold rank; the fallback object of the
  last line has none.
\<close>

record Suggestion =
  threshold :: "jsnum option"
  name :: string
  branch :: string

definition general :: "Suggestion list" where
  "general =
     [\<lparr>threshold = Some (Fin 200), name = ''RVCE, BMSCE, IISc'', branch = ''CSE, ECE, EEE''\<rparr>,
      \<lparr>threshold = Some (Fin 1200), name = ''MSRIT, PESIT, BMSIT'', branch = ''CSE, ECE, ISE''\<rparr>,
      \<lparr>threshold = Some (Fin 3000), name = ''SIT, NMIT, DSCE'', branch = ''CSE, ECE, ME''\<rparr>,
      \<lparr>threshold = Some (Fin 8000), name = ''CIT, SJCE, UVCE'', branch = ''All branches''\<rparr>,
      \<lparr>threshold = Some (Fin 16000), name = ''Regional colleges'', branch = ''All branches''\<rparr>,
      \<lparr>threshold = Some (Fin 30000), name = ''Private colleges'', branch = ''All branches''\<rparr>]"

definition obc :: "Suggestion list" where
  "obc =
     [\<lparr>threshold = Some (Fin 300), name = ''RVCE, BMSCE'', branch = ''CSE, ECE''\<rparr>,
      \<lparr>threshold = Some (Fin 1500), name = ''MSRIT, PESIT'', branch = ''CSE, ECE''\<rparr>,
      \<lparr>threshold = Some (Fin 4000), name = ''SIT, NMIT'', branch = ''CSE, ECE''\<rparr>,
      \<lparr>threshold = Some (Fin 10000), name = ''CIT, SJCE'', branch = ''All branches''\<rparr>,
      \<lparr>threshold = Some (Fin 20000), name = ''Regional colleges'', branch = ''All branches''\<rparr>,
      \<lparr>threshold = Some (Fin 40000), name = ''Private colleges'', branch = ''All branches''\<rparr>]"

definition sc :: "Suggestion list" where
  "sc =
     [\<lparr>threshold = Some (Fin 500), name = ''RVCE, BMSCE'', branch = ''CSE, ECE''\<rparr>,
      \<lparr>threshold = Some (Fin 2000), name = ''MSRIT, PESIT'', branch = ''CSE, ECE''\<rparr>,
      \<lparr>threshold = Some (Fin 6000), name = ''SIT, NMIT'', branch = ''CSE, ECE''\<rparr>,
      \<lparr>threshold = Some (Fin 15000), name = ''CIT, SJCE'', branch = ''All branches''\<rparr>,
      \<lparr>threshold = Some (Fin 30000), name = ''Regional colleges'', branch = ''All branches''\<rparr>,
      \<lparr>threshold = Some (Fin 60000), name = ''Private colleges'', branch = ''All branches''\<rparr>]"

definition st :: "Suggestion list" where
  "st =
     [\<lparr>threshold = Some (Fin 800), name = ''RVCE, BMSCE'', branch = ''CSE, ECE''\<rparr>,
      \<lparr>threshold = Some (Fin 3000), name = ''MSRIT, PESIT'', branch = ''CSE, ECE''\<rparr>,
      \<lparr>threshold = Some (Fin 8000), name = ''SIT, NMIT'', branch = ''CSE, ECE''\<rparr>,
      \<lparr>threshold = Some (Fin 20000), name = ''CIT, SJCE'', branch = ''All branches''\<rparr>,
      \<lparr>threshold = Some (Fin 40000), name = ''Regional colleges'', branch = ''All branches''\<rparr>,
      \<lparr>threshold = Some (Fin 80000), name = ''Private colleges'', branch = ''All branches''\<rparr>]"

text \<open>
  \<open>colleges\<close> is an object literal, so \<open>colleges[category]\<close> is a property read: an own
  property gives its table, a name that \<open>Object.prototype\<close> defines gives the inherited
  member (a function, or the prototype object itself for \<open>__proto__\<close>), any other name
  gives \<open>undefined\<close>.
\<close>

datatype property = Table "Suggestion list" | Inherited | Undefined

definition objectPrototypeKeys :: "string list" where
  "objectPrototypeKeys =
     [''constructor'', ''hasOwnProperty'', ''isPrototypeOf'', ''propertyIsEnumerable'',
      ''toLocaleString'', ''toString'', ''valueOf'', ''__proto__'',
      ''__defineGetter__'', ''__defineSetter__'', ''__lookupGetter__'', ''__lookupSetter__'']"

definition colleges :: "string \<Rightarrow> property" where
  "colleges category =
     (if category = ''general'' then Table general
      else if category = ''obc'' then Table obc
      else if category = ''sc'' then Table sc
      else if category = ''st'' then Table st
      else if category \<in> set objectPrototypeKeys then Inherited
      else Undefined)"

text \<open>
  \<open>x || colleges.general\<close> keeps every value but \<open>undefined\<close> (arrays, functions and objects
  are truthy); \<open>suggestions.find\<close> exists on an array only, and calling the missing
  method of an inherited member throws a \<open>TypeError\<close>.
\<close>

definition getCollegeSuggestions :: "jsnum \<Rightarrow> string \<Rightarrow> error + Suggestion" where
  "getCollegeSuggestions r category =
     (let suggestions = (case colleges category of Undefined \<Rightarrow> Table general | v \<Rightarrow> v)
      in case suggestions of
           Table ss \<Rightarrow>
             (case find (\<lambda>s. case threshold s of Some t \<Rightarrow> js_le r t | None \<Rightarrow> False) ss of
                Some s \<Rightarrow> Inr s
              | None \<Rightarrow> Inr \<lparr>threshold = None, name = ''Other colleges'', branch = ''All branches''\<rparr>)
         | _ \<Rightarrow> Inl TypeError)"

section \<open>Invariants and auxiliary notions\<close>

text \<open>A composite that passes the validation: a number in the closed interval from 0 to 100.\<close>

definition valid_composite :: "jsnum \<Rightarrow> bool" where
  "valid_composite c = (case c of Fin v \<Rightarrow> 0 \<le> v \<and> v \<le> 100 | _ \<Rightarrow> False)"

text \<open>
  A host for closed examples. Every example below stays under \<open>10 ^ 21\<close>, where \<open>toFixed\<close>
  does not consult it.
\<close>

definition exampleHost :: "rat \<Rightarrow> string" where
  "exampleHost x = ''1e+21''"

text \<open>A calibration point with an exact score and an integer rank.\<close>

definition entry :: "rat \<times> int \<Rightarrow> RankEntry" where
  "entry p = \<lparr>score = Fin (fst p), rank = Fin (of_int (snd p))\<rparr>"

text \<open>
  The invariant of the calibration table: scores strictly decrease and ranks do not
  decrease down the table, ranks are non-negative integers the doubles hold exactly, and
  the rounded difference of two neighbouring scores is a positive finite double.
\<close>

fun monotonic :: "(rat \<times> int) list \<Rightarrow> bool" where
  "monotonic (p1 # p2 # ps) =
     (fst p2 < fst p1 \<and> 0 \<le> snd p1 \<and> snd p1 \<le> snd p2 \<and> snd p2 \<le> 2 ^ 52 \<and>
      0 < round_fin (fst p1 - fst p2) \<and> round_fin (fst p1 - fst p2) < 2 ^ 1024 \<and>
      monotonic (p2 # ps))"
| "monotonic ps = True"

text \<open>The calibration points with the exact values of the doubles their literals denote.\<close>

definition points :: "(rat \<times> int) list" where
  "points =
     [(3385440282387415 / 35184372088832, 81), (1654721019337769 / 17592186044416, 308),
      (90, 1245), (85, 3804), (80, 8500), (75, 16000), (70, 30000), (65, 50000),
      (60, 80000), (50, 155000), (40, 235000), (35, 259000)]"

text \<open>The rank that the loop body computes between two neighbouring points, step by step.\<close>

definition segRank :: "rat \<times> int \<Rightarrow> rat \<times> int \<Rightarrow> rat \<Rightarrow> int" where
  "segRank p1 p2 v =
     \<lfloor>round_fin (of_int (snd p1) +
         round_fin (round_fin (round_fin (fst p1 - v) / round_fin (fst p1 - fst p2)) * of_int (snd p2 - snd p1)))
      + 1 / 2\<rfloor>"

text \<open>
  The decimal numeral with two fraction digits nearest to a non-negative rational, the
  larger one on a tie: "rounding to two decimal places" in the words of the specification.
\<close>

definition twoDecimals :: "rat \<Rightarrow> string" where
  "twoDecimals x =
     (let h = nat \<lfloor>x * 100 + 1 / 2\<rfloor>
      in showNat (h div 100) @ ''.'' @
         [''0123456789'' ! ((h div 10) mod 10), ''0123456789'' ! (h mod 10)])"

text \<open>
  The suggestion table of a category in the words of the specification: the table of the
  key, "general" for any other name.
\<close>

definition suggestionTable :: "string \<Rightarrow> Suggestion list" where
  "suggestionTable category =
     (if category = ''obc'' then obc else if category = ''sc'' then sc
      else if category = ''st'' then st else general)"

section \<open>Rounding to the nearest double\<close>

lemma rhe_cases: "round_half_even x = \<lfloor>x\<rfloor> \<or> round_half_even x = \<lfloor>x\<rfloor> + 1"
  by (simp add: round_half_even_def Let_def)

lemma rhe_of_int: "round_half_even (of_int n) = n"
  by (simp add: round_half_even_def)

lemma rhe_mono: "x \<le> y \<Longrightarrow> round_half_even x \<le> round_half_even y"
proof -
  assume le: "x \<le> y"
  have fl: "\<lfloor>x\<rfloor> \<le> \<lfloor>y\<rfloor>" using le by (rule floor_mono)
  show ?thesis
  proof (cases "\<lfloor>x\<rfloor> = \<lfloor>y\<rfloor>")
    case True
    then show ?thesis using le by (auto simp add: round_half_even_def Let_def)
  next
    case False
    then have "\<lfloor>x\<rfloor> + 1 \<le> \<lfloor>y\<rfloor>" using fl by simp
    moreover have "round_half_even x \<le> \<lfloor>x\<rfloor> + 1" using rhe_cases [of x] by auto
    moreover have "\<lfloor>y\<rfloor> \<le> round_half_even y" using rhe_cases [of y] by auto
    ultimately show ?thesis by linarith
  qed
qed

lemma rhe_minus: "round_half_even (- x) = - round_half_even x"
proof (cases "x \<in> \<int>")
  case True
  then obtain n where "x = of_int n" by (auto elim: Ints_cases)
  then show ?thesis using rhe_of_int [of "- n"] rhe_of_int [of n] by simp
next
  case False
  then have "x \<noteq> of_int \<lfloor>x\<rfloor>" by (metis Ints_of_int)
  then have fl: "\<lfloor>- x\<rfloor> = - \<lfloor>x\<rfloor> - 1"
    by (simp add: ceiling_altdef floor_minus)
  show ?thesis
    unfolding round_half_even_def Let_def fl
    by (auto simp add: algebra_simps)
qed

lemma expo_bounds:
  assumes "0 < x"
  shows "2 powi expo x \<le> x \<and> x < 2 powi (expo x + 1)"
proof (cases "1 \<le> x")
  case True
  then have fpos: "0 < \<lfloor>x\<rfloor>" by linarith
  define b where "b = bitlen \<lfloor>x\<rfloor>"
  have e: "expo x = b - 1" using True by (simp add: expo_def b_def)
  have b1: "1 \<le> b" using fpos bitlen_eq_zero_iff [of "\<lfloor>x\<rfloor>"] bitlen_nonneg [of "\<lfloor>x\<rfloor>"]
    unfolding b_def by linarith
  have bb: "2 ^ nat (b - 1) \<le> \<lfloor>x\<rfloor>" "\<lfloor>x\<rfloor> < 2 ^ nat b"
    using bitlen_bounds [OF fpos] unfolding b_def by auto
  have "rat_of_int (2 ^ nat (b - 1)) \<le> x" using bb(1) by (simp only: le_floor_iff)
  then have lo: "(2::rat) ^ nat (b - 1) \<le> x" by simp
  have "x < rat_of_int (2 ^ nat b)" using bb(2) by (simp only: floor_less_iff)
  then have hi: "x < (2::rat) ^ nat b" by simp
  show ?thesis using lo hi b1 unfolding e by (simp add: power_int_def)
next
  case False
  then have x1: "x < 1" by simp
  define y where "y = 1 / x"
  have y1: "1 < y" using assms x1 by (simp add: y_def)
  define n where "n = \<lceil>y\<rceil>"
  have n2: "2 \<le> n" using y1 unfolding n_def by linarith
  define k where "k = bitlen (n - 1)"
  have e: "expo x = - k" using False by (simp add: expo_def k_def n_def y_def)
  have npos: "0 < n - 1" using n2 by simp
  have k1: "1 \<le> k" using npos bitlen_eq_zero_iff [of "n - 1"] bitlen_nonneg [of "n - 1"]
    unfolding k_def by linarith
  have bb: "2 ^ nat (k - 1) \<le> n - 1" "n - 1 < 2 ^ nat k"
    using bitlen_bounds [OF npos] unfolding k_def by auto
  have "2 ^ nat (k - 1) < \<lceil>y\<rceil>" using bb(1) unfolding n_def by simp
  then have "rat_of_int (2 ^ nat (k - 1)) < y" by (simp only: less_ceiling_iff)
  then have lo: "(2::rat) ^ nat (k - 1) < y" by simp
  have "\<lceil>y\<rceil> \<le> 2 ^ nat k" using bb(2) unfolding n_def by simp
  then have "y \<le> rat_of_int (2 ^ nat k)" by (simp only: ceiling_le_iff)
  then have hi: "y \<le> (2::rat) ^ nat k" by simp
  have xy: "x = 1 / y" using assms by (simp add: y_def)
  have ypos: "0 < y" using y1 by simp
  have A: "1 / 2 ^ nat k \<le> x" unfolding xy using hi ypos by (simp add: field_simps)
  have B: "x < 1 / 2 ^ nat (k - 1)" unfolding xy using lo ypos by (simp add: field_simps)
  have p1: "(2::rat) powi (- k) = 1 / 2 ^ nat k" using k1 by (simp add: power_int_def field_simps)
  have p2: "(2::rat) powi (- k + 1) = 1 / 2 ^ nat (k - 1)"
    using k1 by (auto simp add: power_int_def field_simps nat_diff_distrib)
  show ?thesis unfolding e p1 p2 using A B by simp
qed

lemma expo_mono:
  assumes "0 < x" "x \<le> y"
  shows "expo x \<le> expo y"
proof (rule ccontr)
  assume "\<not> expo x \<le> expo y"
  then have "expo y + 1 \<le> expo x" by simp
  then have "(2::rat) powi (expo y + 1) \<le> 2 powi expo x"
    by (intro power_int_increasing) simp_all
  moreover have "y < 2 powi (expo y + 1)" using expo_bounds [of y] assms by simp
  moreover have "2 powi expo x \<le> x" using expo_bounds [of x] assms by simp
  ultimately show False using assms by linarith
qed

lemma quantum_pos: "0 < quantum x"
  by (simp add: quantum_def)

lemma quantum_scale:
  "(2::rat) powi (e - 52) * 2 ^ 53 = 2 powi (e + 1)"
  "(2::rat) powi (e - 52) * 2 ^ 52 = 2 powi e"
proof -
  have a: "e + 1 = (e - 52) + 53" "e = (e - 52) + 52" by simp_all
  have b: "(2::rat) ^ 53 = 2 powi 53" "(2::rat) ^ 52 = 2 powi 52" by simp_all
  show "(2::rat) powi (e - 52) * 2 ^ 53 = 2 powi (e + 1)"
    unfolding b a(1) by (rule power_int_add [symmetric]) simp
  have "(2::rat) powi (e - 52) * 2 powi 52 = 2 powi ((e - 52) + 52)"
    by (rule power_int_add [symmetric]) simp
  then show "(2::rat) powi (e - 52) * 2 ^ 52 = 2 powi e"
    unfolding b a(2) [symmetric] .
qed

lemma round_fin_pos_eq:
  "0 < x \<Longrightarrow> round_fin x = of_int (round_half_even (x / quantum x)) * quantum x"
  by (simp add: round_fin_def)

lemma round_fin_upper:
  assumes "0 < x"
  shows "round_fin x \<le> 2 powi (max (expo x) (- 1022) + 1)"
proof -
  define e where "e = max (expo x) (- 1022)"
  have q: "quantum x = 2 powi (e - 52)" using assms by (simp add: quantum_def e_def)
  have "x < 2 powi (expo x + 1)" using expo_bounds [OF assms] by simp
  also have "\<dots> \<le> 2 powi (e + 1)" unfolding e_def by (intro power_int_increasing) simp_all
  finally have "x < 2 powi (e - 52) * 2 ^ 53" by (simp only: quantum_scale)
  then have "x / quantum x \<le> of_int (2 ^ 53)" unfolding q by (simp add: field_simps)
  then have "round_half_even (x / quantum x) \<le> 2 ^ 53"
    using rhe_mono [of "x / quantum x" "of_int (2 ^ 53)"] by (simp only: rhe_of_int)
  then have "rat_of_int (round_half_even (x / quantum x)) \<le> rat_of_int (2 ^ 53)"
    by (simp only: of_int_le_iff)
  then have "of_int (round_half_even (x / quantum x)) * quantum x \<le> 2 ^ 53 * quantum x"
    using quantum_pos [of x] by simp
  also have "\<dots> = 2 powi (e + 1)" unfolding q using quantum_scale(1) [of e] by (simp add: mult.commute)
  finally show ?thesis using assms unfolding e_def by (simp add: round_fin_pos_eq)
qed

lemma round_fin_lower:
  assumes "0 < x" "- 1022 \<le> expo x"
  shows "2 powi expo x \<le> round_fin x"
proof -
  define e where "e = expo x"
  have q: "quantum x = 2 powi (e - 52)" using assms by (simp add: quantum_def e_def max_def)
  have "2 powi (e - 52) * 2 ^ 52 \<le> x"
    using expo_bounds [OF assms(1)] unfolding e_def by (simp only: quantum_scale)
  then have "of_int (2 ^ 52) \<le> x / quantum x" unfolding q by (simp add: field_simps)
  then have "2 ^ 52 \<le> round_half_even (x / quantum x)"
    using rhe_mono [of "of_int (2 ^ 52)" "x / quantum x"] by (simp only: rhe_of_int)
  then have "rat_of_int (2 ^ 52) \<le> rat_of_int (round_half_even (x / quantum x))"
    by (simp only: of_int_le_iff)
  then have "2 ^ 52 * quantum x \<le> of_int (round_half_even (x / quantum x)) * quantum x"
    using quantum_pos [of x] by simp
  moreover have "2 ^ 52 * quantum x = 2 powi e"
    unfolding q using quantum_scale(2) [of e] by (simp add: mult.commute)
  ultimately show ?thesis using assms unfolding e_def by (simp add: round_fin_pos_eq)
qed

lemma round_fin_mono_pos:
  assumes "0 < x" "x \<le> y"
  shows "round_fin x \<le> round_fin y"
proof -
  have ypos: "0 < y" using assms by simp
  define ex where "ex = max (expo x) (- 1022)"
  define ey where "ey = max (expo y) (- 1022)"
  have le: "ex \<le> ey" using expo_mono [OF assms] unfolding ex_def ey_def by simp
  show ?thesis
  proof (cases "ex = ey")
    case True
    then have q: "quantum x = quantum y"
      using assms ypos by (simp add: quantum_def ex_def ey_def)
    have "x / quantum y \<le> y / quantum y"
      using assms quantum_pos [of y] by (simp add: divide_le_cancel)
    then have "round_half_even (x / quantum y) \<le> round_half_even (y / quantum y)"
      by (rule rhe_mono)
    then have "rat_of_int (round_half_even (x / quantum y)) \<le> rat_of_int (round_half_even (y / quantum y))"
      by (simp only: of_int_le_iff)
    then have "of_int (round_half_even (x / quantum y)) * quantum y
                 \<le> of_int (round_half_even (y / quantum y)) * quantum y"
      using quantum_pos [of y] by simp
    then show ?thesis using assms ypos q by (simp add: round_fin_pos_eq)
  next
    case False
    then have lt: "ex + 1 \<le> ey" using le by simp
    then have ey: "ey = expo y" "- 1022 \<le> expo y" unfolding ex_def ey_def by auto
    have "round_fin x \<le> 2 powi (ex + 1)" using round_fin_upper [OF assms(1)] by (simp add: ex_def)
    also have "\<dots> \<le> 2 powi ey" using lt by (intro power_int_increasing) simp_all
    also have "\<dots> \<le> round_fin y" using round_fin_lower [OF ypos ey(2)] ey(1) by simp
    finally show ?thesis .
  qed
qed

lemma round_fin_minus: "round_fin (- x) = - round_fin x"
  by (simp add: round_fin_def quantum_def rhe_minus)

lemma round_fin_nonneg: "0 \<le> x \<Longrightarrow> 0 \<le> round_fin x"
proof -
  assume "0 \<le> x"
  then have "0 \<le> x / quantum x" using quantum_pos [of x] by simp
  then have "round_half_even 0 \<le> round_half_even (x / quantum x)" by (rule rhe_mono)
  then have "0 \<le> round_half_even (x / quantum x)" using rhe_of_int [of 0] by simp
  then show ?thesis using quantum_pos [of x] by (simp add: round_fin_def)
qed

lemma round_fin_mono:
  assumes "x \<le> y"
  shows "round_fin x \<le> round_fin y"
proof -
  consider "0 < x" | "x \<le> 0" "0 \<le> y" | "y < 0" using assms by linarith
  then show ?thesis
  proof cases
    case 1
    then show ?thesis using assms by (rule round_fin_mono_pos)
  next
    case 2
    have "round_fin x = - round_fin (- x)" by (simp add: round_fin_minus)
    moreover have "0 \<le> round_fin (- x)" using 2 by (intro round_fin_nonneg) simp
    moreover have "0 \<le> round_fin y" using 2 by (intro round_fin_nonneg)
    ultimately show ?thesis by linarith
  next
    case 3
    then have "round_fin (- y) \<le> round_fin (- x)" using assms by (intro round_fin_mono_pos) simp_all
    then show ?thesis by (simp add: round_fin_minus)
  qed
qed

lemma round_fin_exact:
  assumes "x / quantum x = of_int m"
  shows "round_fin x = x"
proof -
  have "of_int (round_half_even (x / quantum x)) * quantum x = x"
    unfolding assms rhe_of_int using assms quantum_pos [of x] by (simp add: field_simps)
  then show ?thesis by (simp add: round_fin_def)
qed

lemma round_fin_nat:
  assumes "0 < n" "n \<le> 2 ^ 53"
  shows "round_fin (of_int n) = of_int n"
proof -
  define x where "x = rat_of_int n"
  define e where "e = expo x"
  have xpos: "0 < x" "1 \<le> x" using assms by (simp_all add: x_def)
  have xle: "x \<le> 2 ^ 53"
  proof -
    have "rat_of_int n \<le> rat_of_int (2 ^ 53)" using assms(2) by (simp only: of_int_le_iff)
    then show ?thesis by (simp add: x_def)
  qed
  have eb: "2 powi e \<le> x" "x < 2 powi (e + 1)" using expo_bounds [OF xpos(1)] by (simp_all add: e_def)
  have e0: "0 \<le> e"
  proof (rule ccontr)
    assume "\<not> 0 \<le> e"
    then have "e + 1 \<le> 0" by simp
    then have "(2::rat) powi (e + 1) \<le> 2 powi 0" by (intro power_int_increasing) simp_all
    then show False using eb(2) xpos(2) by simp
  qed
  have e53: "e \<le> 53"
  proof (rule ccontr)
    assume "\<not> e \<le> 53"
    then have "54 \<le> e" by simp
    then have "(2::rat) powi 54 \<le> 2 powi e" by (intro power_int_increasing) simp_all
    then show False using eb(1) xle by simp
  qed
  have q: "quantum x = 2 powi (e - 52)" using xpos e0 by (simp add: quantum_def e_def max_def)
  have "\<exists>m. x / quantum x = of_int m"
  proof (cases "e = 53")
    case True
    then have "(2::rat) ^ 53 \<le> x" using eb(1) by simp
    then have "x = 2 ^ 53" using xle by simp
    then have "x / quantum x = of_int (2 ^ 52)" unfolding q True by simp
    then show ?thesis by blast
  next
    case False
    then have le: "e \<le> 52" using e53 by simp
    have "(2::rat) powi (e - 52) = 1 / 2 ^ nat (52 - e)"
      using le by (cases "e = 52") (simp_all add: power_int_def field_simps)
    then have "x / quantum x = of_int (n * 2 ^ nat (52 - e))" unfolding q by (simp add: x_def)
    then show ?thesis by blast
  qed
  then show ?thesis using round_fin_exact unfolding x_def by blast
qed

lemma round_fin_0: "round_fin 0 = 0"
  by (simp add: round_fin_def)

lemma round_fin_int:
  assumes "\<bar>n\<bar> \<le> 2 ^ 53"
  shows "round_fin (of_int n) = of_int n"
proof -
  consider "0 < n" | "n = 0" | "n < 0" by linarith
  then show ?thesis
  proof cases
    case 1
    then show ?thesis using assms by (intro round_fin_nat) simp_all
  next
    case 2
    then show ?thesis by (simp add: round_fin_0)
  next
    case 3
    then have "round_fin (of_int (- n)) = of_int (- n)" using assms by (intro round_fin_nat) simp_all
    then show ?thesis by (simp add: round_fin_minus)
  qed
qed

lemma rnd_Fin: "- (2 ^ 1024) < round_fin x \<Longrightarrow> round_fin x < 2 ^ 1024 \<Longrightarrow> rnd x = Fin (round_fin x)"
  by (simp add: rnd_def Let_def)

lemma round_fin_between:
  assumes "of_int a \<le> x" "x \<le> of_int b" "\<bar>a\<bar> \<le> 2 ^ 53" "\<bar>b\<bar> \<le> 2 ^ 53"
  shows "of_int a \<le> round_fin x \<and> round_fin x \<le> of_int b"
  using round_fin_mono [OF assms(1)] round_fin_mono [OF assms(2)]
    round_fin_int [OF assms(3)] round_fin_int [OF assms(4)] by simp

lemma big: "(2::rat) ^ 53 < 2 ^ 1024"
  by (rule power_strict_increasing) simp_all

lemma rnd_between:
  assumes "of_int a \<le> x" "x \<le> of_int b" "\<bar>a\<bar> \<le> 2 ^ 53" "\<bar>b\<bar> \<le> 2 ^ 53"
  shows "rnd x = Fin (round_fin x)"
proof -
  have b: "of_int a \<le> round_fin x" "round_fin x \<le> of_int b"
    using round_fin_between [OF assms] by simp_all
  have "rat_of_int b \<le> rat_of_int (2 ^ 53)" "rat_of_int (- (2 ^ 53)) \<le> rat_of_int a" 
    using assms(3,4) by (simp_all only: of_int_le_iff)
  then have "round_fin x \<le> 2 ^ 53" "- (2 ^ 53) \<le> round_fin x" using b by simp_all
  then show ?thesis using big by (intro rnd_Fin) linarith+
qed

lemma segRank_steps:
  assumes m: "fst p2 < fst p1" "0 \<le> snd p1" "snd p1 \<le> snd p2" "snd p2 \<le> 2 ^ 52"
      "0 < round_fin (fst p1 - fst p2)" "round_fin (fst p1 - fst p2) < 2 ^ 1024"
    and v: "fst p2 \<le> v" "v \<le> fst p1"
  defines "d \<equiv> round_fin (fst p1 - fst p2)"
  defines "so \<equiv> round_fin (fst p1 - v)"
  defines "q \<equiv> round_fin (so / d)"
  defines "t \<equiv> round_fin (q * of_int (snd p2 - snd p1))"
  defines "ir \<equiv> round_fin (of_int (snd p1) + t)"
  shows "fsub (Fin (fst p1)) (Fin (fst p2)) = Fin d"
    and "fsub (Fin (fst p1)) (Fin v) = Fin so"
    and "0 \<le> so" "so \<le> d"
    and "fdiv (Fin so) (Fin d) = Fin q"
    and "0 \<le> q" "q \<le> 1"
    and "fsub (Fin (of_int (snd p2))) (Fin (of_int (snd p1))) = Fin (of_int (snd p2 - snd p1))"
    and "fmul (Fin q) (Fin (of_int (snd p2 - snd p1))) = Fin t"
    and "0 \<le> t" "t \<le> of_int (snd p2 - snd p1)"
    and "fadd (Fin (of_int (snd p1))) (Fin t) = Fin ir"
    and "of_int (snd p1) \<le> ir" "ir \<le> of_int (snd p2)"
proof -
  show 1: "fsub (Fin (fst p1)) (Fin (fst p2)) = Fin d"
    using m(5,6) unfolding d_def fsub_def by (simp add: rnd_Fin)
  show so0: "0 \<le> so" unfolding so_def using v by (intro round_fin_nonneg) simp
  show sod: "so \<le> d" unfolding so_def d_def using v by (intro round_fin_mono) simp
  show "fsub (Fin (fst p1)) (Fin v) = Fin so"
    using so0 sod m(6) unfolding so_def d_def fsub_def by (simp add: rnd_Fin)
  have dpos: "0 < d" using m(5) by (simp add: d_def)
  have sd: "rat_of_int 0 \<le> so / d" "so / d \<le> rat_of_int 1" using so0 sod dpos by simp_all
  have qb: "rat_of_int 0 \<le> q \<and> q \<le> rat_of_int 1"
    unfolding q_def using sd by (intro round_fin_between) simp_all
  show q0: "0 \<le> q" and q1: "q \<le> 1" using qb by simp_all
  show "fdiv (Fin so) (Fin d) = Fin q"
    using dpos rnd_between [OF sd] unfolding q_def by simp
  define rd where "rd = snd p2 - snd p1"
  have rd: "0 \<le> rd" "rd \<le> 2 ^ 52" using m(2,3,4) by (simp_all add: rd_def)
  have "rnd (rat_of_int rd) = Fin (round_fin (of_int rd))"
    using rd by (intro rnd_between [of rd _ rd]) simp_all
  moreover have "round_fin (rat_of_int rd) = of_int rd" using rd by (intro round_fin_int) simp
  ultimately show "fsub (Fin (of_int (snd p2))) (Fin (of_int (snd p1))) = Fin (of_int (snd p2 - snd p1))"
    unfolding fsub_def rd_def by simp
  have rdr: "0 \<le> rat_of_int rd" using rd by simp
  have qt: "rat_of_int 0 \<le> q * of_int rd" "q * of_int rd \<le> rat_of_int rd"
    using q0 q1 rdr by (simp_all add: mult_left_le_one_le)
  have tb: "rat_of_int 0 \<le> t \<and> t \<le> rat_of_int rd"
    unfolding t_def rd_def [symmetric] using qt rd by (intro round_fin_between) simp_all
  show t0: "0 \<le> t" and t1: "t \<le> of_int (snd p2 - snd p1)" using tb by (simp_all add: rd_def)
  show "fmul (Fin q) (Fin (of_int (snd p2 - snd p1))) = Fin t"
    unfolding t_def rd_def [symmetric] using rnd_between [OF qt] rd by simp
  have it: "rat_of_int (snd p1) \<le> of_int (snd p1) + t" "of_int (snd p1) + t \<le> rat_of_int (snd p2)"
    using t0 t1 by simp_all
  have k: "\<bar>snd p1\<bar> \<le> 2 ^ 53" "\<bar>snd p2\<bar> \<le> 2 ^ 53" using m(2,3,4) by simp_all
  show "fadd (Fin (of_int (snd p1))) (Fin t) = Fin ir"
    unfolding ir_def using rnd_between [OF it k] by simp
  show "of_int (snd p1) \<le> ir" "ir \<le> of_int (snd p2)"
    unfolding ir_def using round_fin_between [OF it k] by simp_all
qed

section \<open>Evaluating the rounding on numerals\<close>

lemma bitlen_numeral: "bitlen (numeral n) = bitlen (numeral n div 2) + 1"
  by (subst compute_bitlen) simp

lemma bitlen_one: "bitlen 1 = 1"
  by (subst compute_bitlen) simp

lemma floor_frac_rat: "\<lfloor>(numeral a :: rat) / numeral b\<rfloor> = numeral a div numeral b"
  using floor_divide_of_int_eq [of "numeral a" "numeral b", where ?'a = rat] by simp

lemma floor_neg_frac_rat: "\<lfloor>- ((numeral a :: rat) / numeral b)\<rfloor> = - numeral a div numeral b"
  using floor_divide_of_int_eq [of "- numeral a" "numeral b", where ?'a = rat] by simp

lemma floor_inv_rat: "\<lfloor>(1 :: rat) / numeral b\<rfloor> = 1 div numeral b"
  using floor_divide_of_int_eq [of 1 "numeral b", where ?'a = rat] by simp

lemma ceiling_frac_rat: "\<lceil>(numeral a :: rat) / numeral b\<rceil> = - (- numeral a div numeral b)"
  unfolding ceiling_def using floor_divide_of_int_eq [of "- numeral a" "numeral b", where ?'a = rat] by simp

lemma ceiling_inv_rat: "\<lceil>(1 :: rat) / numeral b\<rceil> = - (- 1 div numeral b)"
  unfolding ceiling_def using floor_divide_of_int_eq [of "- 1" "numeral b", where ?'a = rat] by simp

lemmas ev = rnd_def round_fin_def quantum_def expo_def round_half_even_def Let_def lit_def
  bitlen_numeral bitlen_one floor_frac_rat floor_neg_frac_rat floor_inv_rat ceiling_frac_rat
  ceiling_inv_rat

lemma table_points: "kcet2025RankTable = map entry points"
  by (simp add: kcet2025RankTable_def points_def entry_def ev)

lemma points_monotonic: "monotonic points"
  by (simp add: points_def ev)

lemma showNat_numeral:
  "showNat (numeral k) =
     (if (numeral k :: nat) < 10 then [''0123456789'' ! numeral k]
      else showNat (numeral k div 10) @ [''0123456789'' ! (numeral k mod 10)])"
  by (rule showNat.simps)

lemma showNat_small: "showNat 0 = ''0''" "showNat 1 = ''1''" "showNat (Suc 0) = ''1''"
  by (simp_all add: showNat.simps [of 0] showNat.simps [of 1] showNat.simps [of "Suc 0"])

lemmas showNat_eval = showNat_numeral showNat_small

lemmas pv = predictKCETRank_def combinedScore_def firstPass_def kcet2025RankTable_def isNaN_def
  js_gt_def js_ge_def banded_def calculatePercentile_def toFixed_def fsub_def showNat_eval
  getRankBand_def getCompetitionLevel_def

section \<open>The interpolation between two neighbouring points\<close>

lemma segRank_bounds:
  assumes "fst p2 < fst p1" "0 \<le> snd p1" "snd p1 \<le> snd p2" "snd p2 \<le> 2 ^ 52"
      "0 < round_fin (fst p1 - fst p2)" "round_fin (fst p1 - fst p2) < 2 ^ 1024"
    and "fst p2 \<le> v" "v \<le> fst p1"
  shows "snd p1 \<le> segRank p1 p2 v \<and> segRank p1 p2 v \<le> snd p2"
proof -
  define ir where "ir = round_fin (of_int (snd p1) +
         round_fin (round_fin (round_fin (fst p1 - v) / round_fin (fst p1 - fst p2)) * of_int (snd p2 - snd p1)))"
  have b: "of_int (snd p1) \<le> ir" "ir \<le> of_int (snd p2)"
    using segRank_steps(13,14) [OF assms] by (simp_all add: ir_def)
  have s: "segRank p1 p2 v = \<lfloor>ir + 1 / 2\<rfloor>" by (simp add: segRank_def ir_def)
  have "rat_of_int (snd p1) \<le> ir + 1 / 2" using b(1) by simp
  then have lo: "snd p1 \<le> \<lfloor>ir + 1 / 2\<rfloor>" by (simp only: le_floor_iff)
  have "ir + 1 / 2 < rat_of_int (snd p2 + 1)" using b(2) by simp
  then have "\<lfloor>ir + 1 / 2\<rfloor> < snd p2 + 1" by (simp only: floor_less_iff)
  then show ?thesis using lo unfolding s by simp
qed

lemma segRank_antimono:
  assumes "fst p2 < fst p1" "0 \<le> snd p1" "snd p1 \<le> snd p2" "snd p2 \<le> 2 ^ 52"
      "0 < round_fin (fst p1 - fst p2)" "round_fin (fst p1 - fst p2) < 2 ^ 1024"
    and "v \<le> v'"
  shows "segRank p1 p2 v' \<le> segRank p1 p2 v"
proof -
  define d where "d = round_fin (fst p1 - fst p2)"
  define rd where "rd = rat_of_int (snd p2 - snd p1)"
  have dpos: "0 < d" using assms(5) by (simp add: d_def)
  have rd0: "0 \<le> rd" using assms(3) by (simp add: rd_def)
  have "round_fin (fst p1 - v') \<le> round_fin (fst p1 - v)"
    using assms(7) by (intro round_fin_mono) simp
  then have "round_fin (fst p1 - v') / d \<le> round_fin (fst p1 - v) / d"
    using dpos by (simp add: divide_le_cancel)
  then have "round_fin (round_fin (fst p1 - v') / d) \<le> round_fin (round_fin (fst p1 - v) / d)"
    by (rule round_fin_mono)
  then have "round_fin (round_fin (fst p1 - v') / d) * rd \<le> round_fin (round_fin (fst p1 - v) / d) * rd"
    using rd0 by (rule mult_right_mono)
  then have "round_fin (round_fin (round_fin (fst p1 - v') / d) * rd)
               \<le> round_fin (round_fin (round_fin (fst p1 - v) / d) * rd)"
    by (rule round_fin_mono)
  then have "of_int (snd p1) + round_fin (round_fin (round_fin (fst p1 - v') / d) * rd)
               \<le> of_int (snd p1) + round_fin (round_fin (round_fin (fst p1 - v) / d) * rd)"
    by simp
  then have "round_fin (of_int (snd p1) + round_fin (round_fin (round_fin (fst p1 - v') / d) * rd))
               \<le> round_fin (of_int (snd p1) + round_fin (round_fin (round_fin (fst p1 - v) / d) * rd))"
    by (rule round_fin_mono)
  then show ?thesis unfolding segRank_def d_def rd_def by (intro floor_mono) simp
qed

lemma interpolate_match:
  assumes "fst p2 < fst p1" "0 \<le> snd p1" "snd p1 \<le> snd p2" "snd p2 \<le> 2 ^ 52"
      "0 < round_fin (fst p1 - fst p2)" "round_fin (fst p1 - fst p2) < 2 ^ 1024"
    and "fst p2 \<le> v" "v \<le> fst p1"
  shows "interpolate ts (entry p1 # entry p2 # es) (Fin v)
           = Some (banded ts (Fin (of_int (segRank p1 p2 v))) (Fin v))"
  using assms(7,8) segRank_steps(1,2,5,8,9,12) [OF assms]
  by (simp add: entry_def js_ge_def Let_def segRank_def)

lemma interpolate_skip:
  assumes "\<not> (fst p2 \<le> v \<and> v \<le> fst p1)"
  shows "interpolate ts (entry p1 # entry p2 # es) (Fin v) = interpolate ts (entry p2 # es) (Fin v)"
  using assms by (auto simp add: entry_def js_ge_def)

lemma monotonic_last_rank: "monotonic (p # ps) \<Longrightarrow> snd p \<le> snd (last (p # ps))"
proof (induction ps arbitrary: p)
  case Nil
  then show ?case by simp
next
  case (Cons q qs)
  then have "snd p \<le> snd q" "snd q \<le> snd (last (q # qs))" by simp_all
  then show ?case by simp
qed

lemma interpolate_above:
  "monotonic (p # ps) \<Longrightarrow> fst p < v \<Longrightarrow> interpolate ts (map entry (p # ps)) (Fin v) = None"
proof (induction ps arbitrary: p)
  case Nil
  then show ?case by simp
next
  case (Cons q qs)
  then have "fst q < v" "monotonic (q # qs)" by simp_all
  then have "interpolate ts (map entry (q # qs)) (Fin v) = None" by (rule Cons.IH [rotated])
  moreover have "\<not> (fst q \<le> v \<and> v \<le> fst p)" using Cons.prems by simp
  ultimately show ?case using interpolate_skip [of q v p ts "map entry qs"] by simp
qed

lemma interpolate_total:
  "monotonic (p # ps) \<Longrightarrow> ps \<noteq> [] \<Longrightarrow> fst (last (p # ps)) \<le> v \<Longrightarrow> v \<le> fst p
     \<Longrightarrow> \<exists>r. interpolate ts (map entry (p # ps)) (Fin v) = Some r"
proof (induction ps arbitrary: p)
  case Nil
  then show ?case by simp
next
  case (Cons q qs)
  show ?case
  proof (cases "fst q \<le> v")
    case True
    then show ?thesis
      using Cons.prems interpolate_match [of q p v ts "map entry qs"] by simp
  next
    case False
    then have ne: "qs \<noteq> []" using Cons.prems by auto
    have "\<exists>r. interpolate ts (map entry (q # qs)) (Fin v) = Some r"
      using Cons.prems False ne by (intro Cons.IH) simp_all
    then show ?thesis using False interpolate_skip [of q v p ts "map entry qs"] by simp
  qed
qed

lemma interpolate_bounds:
  "monotonic (p # ps) \<Longrightarrow> interpolate ts (map entry (p # ps)) (Fin v) = Some r
     \<Longrightarrow> \<exists>m. r = banded ts (Fin (of_int m)) (Fin v) \<and> snd p \<le> m \<and> m \<le> snd (last (p # ps))"
proof (induction ps arbitrary: p)
  case Nil
  then show ?case by simp
next
  case (Cons q qs)
  have pq: "snd p \<le> snd q" "snd q \<le> snd (last (q # qs))"
    using Cons.prems(1) monotonic_last_rank [of q qs] by simp_all
  show ?case
  proof (cases "fst q \<le> v \<and> v \<le> fst p")
    case True
    then have "r = banded ts (Fin (of_int (segRank p q v))) (Fin v)"
      using Cons.prems interpolate_match [of q p v ts "map entry qs"] by simp
    moreover have "snd p \<le> segRank p q v \<and> segRank p q v \<le> snd q"
      using Cons.prems(1) True by (intro segRank_bounds) simp_all
    ultimately show ?thesis using pq by auto
  next
    case False
    then have "interpolate ts (map entry (q # qs)) (Fin v) = Some r"
      using Cons.prems(2) interpolate_skip [of q v p ts "map entry qs"] by simp
    moreover have "monotonic (q # qs)" using Cons.prems(1) by simp
    ultimately obtain m where "r = banded ts (Fin (of_int m)) (Fin v)" "snd q \<le> m"
        "m \<le> snd (last (q # qs))"
      using Cons.IH by blast
    then show ?thesis using pq by auto
  qed
qed

lemma interpolate_antimono:
  "monotonic (p # ps) \<Longrightarrow> v \<le> v'
     \<Longrightarrow> interpolate ts (map entry (p # ps)) (Fin v) = Some r
     \<Longrightarrow> interpolate ts (map entry (p # ps)) (Fin v') = Some r'
     \<Longrightarrow> \<exists>m m'. r = banded ts (Fin (of_int m)) (Fin v) \<and>
           r' = banded ts (Fin (of_int m')) (Fin v') \<and> m' \<le> m"
proof (induction ps arbitrary: p)
  case Nil
  then show ?case by simp
next
  case (Cons q qs)
  have mq: "monotonic (q # qs)" using Cons.prems(1) by simp
  have v'p: "v' \<le> fst p"
  proof (rule ccontr)
    assume "\<not> v' \<le> fst p"
    then have "interpolate ts (map entry (p # q # qs)) (Fin v') = None"
      using Cons.prems(1) by (intro interpolate_above) simp_all
    then show False using Cons.prems(4) by simp
  qed
  show ?case
  proof (cases "fst q \<le> v'")
    case True
    then have r': "r' = banded ts (Fin (of_int (segRank p q v'))) (Fin v')"
      using Cons.prems v'p interpolate_match [of q p v' ts "map entry qs"] by simp
    have b': "segRank p q v' \<le> snd q"
      using Cons.prems(1) True v'p segRank_bounds [of q p v'] by simp
    show ?thesis
    proof (cases "fst q \<le> v")
      case True
      then have "r = banded ts (Fin (of_int (segRank p q v))) (Fin v)"
        using Cons.prems v'p interpolate_match [of q p v ts "map entry qs"] by simp
      moreover have "segRank p q v' \<le> segRank p q v"
        using Cons.prems(1,2) by (intro segRank_antimono) simp_all
      ultimately show ?thesis using r' by blast
    next
      case False
      then have "interpolate ts (map entry (q # qs)) (Fin v) = Some r"
        using Cons.prems(3) interpolate_skip [of q v p ts "map entry qs"] by simp
      then obtain m where "r = banded ts (Fin (of_int m)) (Fin v)" "snd q \<le> m"
        using interpolate_bounds [OF mq] by blast
      then show ?thesis using r' b' by (intro exI [of _ m] exI [of _ "segRank p q v'"]) simp
    qed
  next
    case False
    then have nv: "\<not> fst q \<le> v" using Cons.prems(2) by simp
    have "interpolate ts (map entry (q # qs)) (Fin v) = Some r"
      using Cons.prems(3) nv interpolate_skip [of q v p ts "map entry qs"] by simp
    moreover have "interpolate ts (map entry (q # qs)) (Fin v') = Some r'"
      using Cons.prems(4) False interpolate_skip [of q v' p ts "map entry qs"] by simp
    ultimately show ?thesis using Cons.IH [OF mq Cons.prems(2)] by blast
  qed
qed

lemma interpolate_index:
  "interpolate ts es c = Some r
     \<Longrightarrow> \<exists>i. Suc i < length es \<and> js_le (score (es ! Suc i)) c \<and> js_le c (score (es ! i))"
proof (induction ts es c rule: interpolate.induct)
  case (1 ts currentEntry nextEntry rest c)
  show ?case
  proof (cases "js_le c (score currentEntry) \<and> js_ge c (score nextEntry)")
    case True
    then have "Suc 0 < length (currentEntry # nextEntry # rest) \<and>
        js_le (score ((currentEntry # nextEntry # rest) ! Suc 0)) c \<and>
        js_le c (score ((currentEntry # nextEntry # rest) ! 0))"
      by (simp add: js_ge_def)
    then show ?thesis by blast
  next
    case False
    then have "interpolate ts (nextEntry # rest) c = Some r" using "1.prems" by auto
    then obtain i where "Suc i < length (nextEntry # rest)"
        "js_le (score ((nextEntry # rest) ! Suc i)) c" "js_le c (score ((nextEntry # rest) ! i))"
      using "1.IH" False by blast
    then have "Suc (Suc i) < length (currentEntry # nextEntry # rest) \<and>
        js_le (score ((currentEntry # nextEntry # rest) ! Suc (Suc i))) c \<and>
        js_le c (score ((currentEntry # nextEntry # rest) ! Suc i))"
      by simp
    then show ?thesis by blast
  qed
qed simp_all

section \<open>The first pass over a valid composite\<close>

lemma lit_normal:
  "lit (4811 / 50) = Fin (3385440282387415 / 35184372088832)"
  "lit 35 = Fin 35"
  "lit (3 / 5) = Fin (5404319552844595 / 9007199254740992)"
  "lit (2 / 5) = Fin (3602879701896397 / 9007199254740992)"
  "lit (19 / 20) = Fin (4278419646001971 / 4503599627370496)"
  "lit (21 / 20) = Fin (4728779608739021 / 4503599627370496)"
  by (simp_all add: ev)

lemma banded_sel:
  "medium (banded ts m c) = m" "composite (banded ts m c) = c"
  "low (banded ts m c) = math_round (fmul m (lit (95 / 100)))"
  "high (banded ts m c) = math_round (fmul m (lit (105 / 100)))"
  by (simp_all add: banded_def)

lemma table_ends:
  "score (hd kcet2025RankTable) = lit (9622 / 100)"
  "score (last kcet2025RankTable) = lit (3500 / 100)"
  by (simp_all add: kcet2025RankTable_def)

lemma firstPass_top:
  assumes "3385440282387415 / 35184372088832 \<le> v"
  shows "firstPass ts (Fin v) =
     Some \<lparr>low = Fin 1, medium = Fin 1, high = Fin 1, composite = Fin v,
           percentile = Some ''Top 0.01%'', rankBand = Some ''Elite'',
           competitionLevel = Some ''Extremely High''\<rparr>"
  using assms unfolding firstPass_def table_ends by (simp add: lit_normal js_ge_def)

lemma firstPass_bottom:
  assumes "v \<le> 35"
  shows "firstPass ts (Fin v) =
     Some \<lparr>low = Fin 250000, medium = Fin 260000, high = Fin 270000, composite = Fin v,
           percentile = Some ''Bottom 20%'', rankBand = Some ''Lower'',
           competitionLevel = Some ''Moderate''\<rparr>"
  using assms unfolding firstPass_def table_ends by (simp add: lit_normal js_ge_def)

lemma firstPass_interior:
  assumes "35 < v" "v < 3385440282387415 / 35184372088832"
  shows "firstPass ts (Fin v) = interpolate ts (map entry points) (Fin v)"
  using assms unfolding firstPass_def table_ends by (simp add: lit_normal js_ge_def table_points)

lemma points_shape: "points = hd points # tl points" "tl points \<noteq> []"
  "fst (hd points) = 3385440282387415 / 35184372088832" "snd (hd points) = 81"
  "last (hd points # tl points) = (35, 259000)"
  by (simp_all add: points_def)

lemma firstPass_interior_Some:
  assumes "35 < v" "v < 3385440282387415 / 35184372088832"
  shows "\<exists>m. firstPass ts (Fin v) = Some (banded ts (Fin (of_int m)) (Fin v)) \<and> 81 \<le> m \<and> m \<le> 259000"
proof -
  have mono: "monotonic (hd points # tl points)" using points_monotonic points_shape(1) by simp
  have "\<exists>r. interpolate ts (map entry (hd points # tl points)) (Fin v) = Some r"
    using assms points_shape by (intro interpolate_total [OF mono]) simp_all
  then obtain r where r: "interpolate ts (map entry (hd points # tl points)) (Fin v) = Some r" by blast
  obtain m where "r = banded ts (Fin (of_int m)) (Fin v)" "snd (hd points) \<le> m"
      "m \<le> snd (last (hd points # tl points))"
    using interpolate_bounds [OF mono r] by blast
  then show ?thesis using r firstPass_interior [OF assms, of ts] points_shape by auto
qed

lemma firstPass_interior_antimono:
  assumes "35 < v" "v \<le> v'" "v' < 3385440282387415 / 35184372088832"
    and "firstPass ts (Fin v) = Some r" "firstPass ts (Fin v') = Some r'"
  shows "\<exists>m m'. medium r = Fin (of_int m) \<and> medium r' = Fin (of_int m') \<and> m' \<le> m"
proof -
  have mono: "monotonic (hd points # tl points)" using points_monotonic points_shape(1) by simp
  have "interpolate ts (map entry (hd points # tl points)) (Fin v) = Some r"
    "interpolate ts (map entry (hd points # tl points)) (Fin v') = Some r'"
    using assms firstPass_interior [of v ts] firstPass_interior [of v' ts] points_shape(1) by simp_all
  then obtain m m' where "r = banded ts (Fin (of_int m)) (Fin v)"
      "r' = banded ts (Fin (of_int m')) (Fin v')" "m' \<le> m"
    using interpolate_antimono [OF mono assms(2)] by blast
  then show ?thesis by (auto simp add: banded_sel)
qed

lemma valid_compositeE:
  assumes "valid_composite c"
  obtains v where "c = Fin v" "0 \<le> v" "v \<le> 100"
  using assms by (cases c) (simp_all add: valid_composite_def)

lemma rejected_iff: "(isNaN c \<or> js_lt c (Fin 0) \<or> js_gt c (Fin 100)) = (\<not> valid_composite c)"
  by (cases c) (auto simp add: valid_composite_def isNaN_def js_gt_def)

lemma predict_unfold:
  "predictKCETRank ts cet puc =
     (if valid_composite (combinedScore cet puc)
      then (case firstPass ts (combinedScore cet puc) of
              Some result \<Rightarrow> Inr result
            | None \<Rightarrow> Inr (closestMatch ts (combinedScore cet puc)))
      else Inl (Error ''Please enter valid marks (KCET: 0-180, PUC: 0-100)''))"
  by (simp add: predictKCETRank_def Let_def rejected_iff)

text \<open>The medium rank of the first pass, by the position of a valid composite.\<close>

lemma firstPass_valid:
  assumes "0 \<le> v" "v \<le> 100"
  shows "\<exists>r m. firstPass ts (Fin v) = Some r \<and> medium r = Fin (of_int m) \<and> composite r = Fin v \<and>
           1 \<le> m \<and> m \<le> 260000 \<and>
           (3385440282387415 / 35184372088832 \<le> v \<longrightarrow> m = 1) \<and>
           (v \<le> 35 \<longrightarrow> m = 260000) \<and>
           (35 < v \<and> v < 3385440282387415 / 35184372088832 \<longrightarrow>
              81 \<le> m \<and> m \<le> 259000 \<and> r = banded ts (Fin (of_int m)) (Fin v))"
proof -
  consider "3385440282387415 / 35184372088832 \<le> v" | "v \<le> 35"
    | "35 < v" "v < 3385440282387415 / 35184372088832" by linarith
  then show ?thesis
  proof cases
    case 1
    show ?thesis using 1 firstPass_top [OF 1, of ts]
      by (intro exI [of _ "the (firstPass ts (Fin v))"] exI [of _ 1]) simp
  next
    case 2
    show ?thesis using 2 firstPass_bottom [OF 2, of ts]
      by (intro exI [of _ "the (firstPass ts (Fin v))"] exI [of _ 260000]) simp
  next
    case 3
    obtain m where "firstPass ts (Fin v) = Some (banded ts (Fin (of_int m)) (Fin v))" "81 \<le> m" "m \<le> 259000"
      using firstPass_interior_Some [OF 3, of ts] by blast
    then show ?thesis using 3
      by (intro exI [of _ "banded ts (Fin (of_int m)) (Fin v)"] exI [of _ m]) (simp add: banded_sel)
  qed
qed

lemma predict_valid:
  assumes "predictKCETRank ts cet puc = Inr r"
  obtains v where "combinedScore cet puc = Fin v" "0 \<le> v" "v \<le> 100" "firstPass ts (Fin v) = Some r"
proof -
  have val: "valid_composite (combinedScore cet puc)"
    using assms by (simp add: predict_unfold split: if_splits)
  then obtain v where v: "combinedScore cet puc = Fin v" "0 \<le> v" "v \<le> 100"
    by (rule valid_compositeE)
  obtain r0 where "firstPass ts (Fin v) = Some r0" using firstPass_valid [OF v(2,3), of ts] by blast
  then have "firstPass ts (Fin v) = Some r" using assms val v(1) by (simp add: predict_unfold)
  then show ?thesis using v that by blast
qed

lemma band_low:
  assumes "0 \<le> m" "m \<le> 2 ^ 52"
  shows "\<exists>l. math_round (fmul (Fin (of_int m)) (lit (95 / 100))) = Fin (of_int l) \<and> l \<le> m"
proof -
  define z :: rat where "z = 4278419646001971 / 4503599627370496"
  have z: "0 \<le> z" "z \<le> 1" by (simp_all add: z_def)
  have m0: "0 \<le> rat_of_int m" using assms(1) by simp
  have b: "rat_of_int 0 \<le> of_int m * z" "of_int m * z \<le> rat_of_int m"
    using z m0 by (simp_all add: mult_left_le)
  have k: "\<bar>0::int\<bar> \<le> 2 ^ 53" "\<bar>m\<bar> \<le> 2 ^ 53" using assms by simp_all
  have e: "fmul (Fin (of_int m)) (lit (95 / 100)) = Fin (round_fin (of_int m * z))"
    using rnd_between [OF b k] by (simp add: lit_normal z_def)
  have "round_fin (of_int m * z) + 1 / 2 < rat_of_int (m + 1)"
    using round_fin_between [OF b k] by simp
  then have "\<lfloor>round_fin (of_int m * z) + 1 / 2\<rfloor> < m + 1" by (simp only: floor_less_iff)
  then show ?thesis unfolding e by simp
qed

lemma band_high:
  assumes "0 \<le> m" "m \<le> 2 ^ 52"
  shows "\<exists>h. math_round (fmul (Fin (of_int m)) (lit (105 / 100))) = Fin (of_int h) \<and> m \<le> h"
proof -
  define z :: rat where "z = 4728779608739021 / 4503599627370496"
  have z: "1 \<le> z" "z \<le> 2" by (simp_all add: z_def)
  have m0: "0 \<le> rat_of_int m" using assms(1) by simp
  have "rat_of_int m * 1 \<le> of_int m * z" "of_int m * z \<le> of_int m * 2"
    using z m0 by (intro mult_left_mono; simp)+
  then have b: "rat_of_int m \<le> of_int m * z" "of_int m * z \<le> rat_of_int (2 * m)" by simp_all
  have k: "\<bar>m\<bar> \<le> 2 ^ 53" "\<bar>2 * m\<bar> \<le> 2 ^ 53" using assms by simp_all
  have e: "fmul (Fin (of_int m)) (lit (105 / 100)) = Fin (round_fin (of_int m * z))"
    using rnd_between [OF b k] by (simp add: lit_normal z_def)
  have "rat_of_int m \<le> round_fin (of_int m * z) + 1 / 2"
    using round_fin_between [OF b k] by simp
  then have "m \<le> \<lfloor>round_fin (of_int m * z) + 1 / 2\<rfloor>" by (simp only: le_floor_iff)
  then show ?thesis unfolding e by simp
qed

lemma composite_samples:
  "combinedScore (Fin 0) (Fin 0) = Fin 0"
  "combinedScore (Fin 162) (Fin 96) = Fin (3251035981008077 / 35184372088832)"
  "combinedScore (Fin 144) (Fin 80) = Fin 80"
  "combinedScore (Fin 180) (Fin 100) = Fin 100"
  "combinedScore (Fin 180) (Fin 200) = Fin 140"
  "combinedScore (Fin 0) (Fin (- 10)) = Fin (- 4)"
  by (simp_all add: combinedScore_def ev)

section \<open>Samples, formatting and the bracketing pair\<close>

lemma prediction_162_96:
  "predictKCETRank ts (Fin 162) (Fin 96) =
     Inr \<lparr>low = Fin 656, medium = Fin 691, high = Fin 726,
          composite = Fin (3251035981008077 / 35184372088832),
          percentile = Some ''99.73%'', rankBand = Some ''Excellent'',
          competitionLevel = Some ''Very High''\<rparr>"
  by (simp add: pv ev)

lemma prediction_144_80:
  "predictKCETRank ts (Fin 144) (Fin 80) =
     Inr \<lparr>low = Fin 8075, medium = Fin 8500, high = Fin 8925, composite = Fin 80,
          percentile = Some ''96.73%'', rankBand = Some ''Above Average'',
          competitionLevel = Some ''Moderately High''\<rparr>"
  by (simp add: pv ev)

lemma showNat_length: "0 < length (showNat n)"
  by (subst showNat.simps) simp

lemma showNat_hundreds:
  assumes "100 \<le> n"
  shows "showNat n = showNat (n div 100) @ [''0123456789'' ! ((n div 10) mod 10), ''0123456789'' ! (n mod 10)]"
proof -
  have a: "showNat n = showNat (n div 10) @ [''0123456789'' ! (n mod 10)]"
    using assms by (subst showNat.simps) simp
  have "10 \<le> n div 10" using assms by simp
  then have b: "showNat (n div 10) = showNat (n div 10 div 10) @ [''0123456789'' ! ((n div 10) mod 10)]"
    by (subst showNat.simps) simp
  have "n div 10 div 10 = n div 100" by (simp add: div_mult2_eq [symmetric])
  then show ?thesis using a b by simp
qed

lemma showNat_tens:
  assumes "10 \<le> n" "n < 100"
  shows "showNat n = [''0123456789'' ! (n div 10), ''0123456789'' ! (n mod 10)]"
proof -
  have a: "showNat n = showNat (n div 10) @ [''0123456789'' ! (n mod 10)]"
    using assms by (subst showNat.simps) simp
  have "n div 10 < 10" using assms by simp
  then have "showNat (n div 10) = [''0123456789'' ! (n div 10)]" by (subst showNat.simps) simp
  then show ?thesis using a by simp
qed

lemma showNat_units:
  assumes "n < 10"
  shows "showNat n = [''0123456789'' ! n]"
  using assms by (subst showNat.simps) simp

lemma toFixed_two:
  assumes "\<bar>x\<bar> < 10 ^ 21"
  shows "toFixed ts 2 (Fin x) = (if x < 0 then ''-'' else '''') @ twoDecimals \<bar>x\<bar>"
proof -
  define h where "h = nat \<lfloor>\<bar>x\<bar> * 100 + 1 / 2\<rfloor>"
  have n: "\<not> 10 ^ 21 \<le> \<bar>x\<bar>" using assms by simp
  have t: "toFixed ts 2 (Fin x) =
      (if x < 0 then ''-'' else '''') @
      (let m = showNat h;
           z = (if length m \<le> 2 then replicate (3 - length m) (CHR ''0'') @ m else m)
       in take (length z - 2) z @ ''.'' @ drop (length z - 2) z)"
    using n unfolding toFixed_def h_def by (simp add: Let_def)
  have "(let m = showNat h;
           z = (if length m \<le> 2 then replicate (3 - length m) (CHR ''0'') @ m else m)
       in take (length z - 2) z @ ''.'' @ drop (length z - 2) z)
      = showNat (h div 100) @ ''.'' @ [''0123456789'' ! ((h div 10) mod 10), ''0123456789'' ! (h mod 10)]"
  proof -
    consider "h < 10" | "10 \<le> h" "h < 100" | "100 \<le> h" by linarith
    then show ?thesis
    proof cases
      case 1
      then have "h div 100 = 0" "h div 10 = 0" "h mod 10 = h" by simp_all
      then show ?thesis using showNat_units [OF 1] showNat_units [of 0]
        by (simp add: Let_def numeral_3_eq_3)
    next
      case 2
      then have "h div 100 = 0" "(h div 10) mod 10 = h div 10" by simp_all
      then show ?thesis using showNat_tens [OF 2] showNat_units [of 0]
        by (simp add: Let_def)
    next
      case 3
      have "0 < length (showNat (h div 100))" by (rule showNat_length)
      then show ?thesis using showNat_hundreds [OF 3] by (simp add: Let_def)
    qed
  qed
  then show ?thesis unfolding t twoDecimals_def h_def [symmetric] by (simp add: Let_def)
qed

lemma nearest_hundredth:
  assumes "0 \<le> x"
  shows "\<bar>rat_of_nat (nat \<lfloor>x * 100 + 1 / 2\<rfloor>) / 100 - x\<bar> \<le> 1 / 200"
proof -
  define y where "y = rat_of_int \<lfloor>x * 100 + 1 / 2\<rfloor>"
  have "0 \<le> \<lfloor>x * 100 + 1 / 2\<rfloor>" using assms by simp
  then have e: "rat_of_nat (nat \<lfloor>x * 100 + 1 / 2\<rfloor>) = y" by (simp add: y_def)
  have "y \<le> x * 100 + 1 / 2" "x * 100 + 1 / 2 < y + 1" unfolding y_def by linarith+
  then have "- (1 / 200) \<le> y / 100 - x" "y / 100 - x \<le> 1 / 200" by simp_all
  then show ?thesis unfolding e by (simp only: abs_le_iff) simp
qed

lemma percentage_of_rank:
  assumes "\<bar>n\<bar> \<le> 2 ^ 52"
  shows "\<exists>x. fmul (fdiv (fsub (Fin 260000) (Fin (of_int n))) (Fin 260000)) (Fin 100) = Fin x \<and>
           \<bar>x\<bar> < 10 ^ 21"
proof -
  define a where "a = round_fin (260000 - rat_of_int n)"
  define b where "b = round_fin (a / 260000)"
  define c where "c = round_fin (b * 100)"
  have k: "\<bar>- (2 ^ 53) :: int\<bar> \<le> 2 ^ 53" "\<bar>2 ^ 53 :: int\<bar> \<le> 2 ^ 53" by simp_all
  have "- (2 ^ 52) \<le> n" "n \<le> 2 ^ 52" using assms by simp_all
  then have nn: "rat_of_int (- (2 ^ 52)) \<le> rat_of_int n" "rat_of_int n \<le> rat_of_int (2 ^ 52)"
    by (simp_all only: of_int_le_iff)
  have a0: "rat_of_int (- (2 ^ 53)) \<le> 260000 - rat_of_int n" "260000 - rat_of_int n \<le> rat_of_int (2 ^ 53)"
    using nn by simp_all
  have a1: "fsub (Fin 260000) (Fin (of_int n)) = Fin a"
    using rnd_between [OF a0 k] by (simp add: fsub_def a_def)
  have a2: "rat_of_int (- (2 ^ 53)) \<le> a" "a \<le> rat_of_int (2 ^ 53)"
    using round_fin_between [OF a0 k] by (simp_all add: a_def)
  have b0: "rat_of_int (- (2 ^ 53)) \<le> a / 260000" "a / 260000 \<le> rat_of_int (2 ^ 53)"
    using a2 by simp_all
  have b1: "fdiv (Fin a) (Fin 260000) = Fin b"
    using rnd_between [OF b0 k] by (simp add: b_def)
  have b2: "rat_of_int (- (2 ^ 36)) \<le> b" "b \<le> rat_of_int (2 ^ 36)"
  proof -
    have b3: "rat_of_int (- (2 ^ 36)) \<le> a / 260000" "a / 260000 \<le> rat_of_int (2 ^ 36)"
      using a2 by simp_all
    have k36: "\<bar>- (2 ^ 36) :: int\<bar> \<le> 2 ^ 53" "\<bar>2 ^ 36 :: int\<bar> \<le> 2 ^ 53" by simp_all
    show "rat_of_int (- (2 ^ 36)) \<le> b" "b \<le> rat_of_int (2 ^ 36)"
      using round_fin_between [OF b3 k36] by (simp_all add: b_def)
  qed
  have c0: "rat_of_int (- (2 ^ 53)) \<le> b * 100" "b * 100 \<le> rat_of_int (2 ^ 53)"
    using b2 by simp_all
  have c1: "fmul (Fin b) (Fin 100) = Fin c"
    using rnd_between [OF c0 k] by (simp add: c_def)
  have c2: "rat_of_int (- (2 ^ 53)) \<le> c" "c \<le> rat_of_int (2 ^ 53)"
    using round_fin_between [OF c0 k] by (simp_all add: c_def)
  then have "\<bar>c\<bar> < 10 ^ 21" by simp
  then show ?thesis using a1 b1 c1 by simp
qed

lemma percentage_1000:
  "fmul (fdiv (fsub (Fin 260000) (Fin 1000)) (Fin 260000)) (Fin 100)
     = Fin (3504904758079803 / 35184372088832)"
  by (simp add: fsub_def ev)

lemma interpolate_bracket:
  "monotonic (p # ps) \<Longrightarrow> interpolate ts (map entry (p # ps)) (Fin v) = Some r
     \<Longrightarrow> \<exists>i m. Suc i < length (p # ps) \<and> r = banded ts (Fin (of_int m)) (Fin v) \<and>
           fst ((p # ps) ! Suc i) \<le> v \<and> v \<le> fst ((p # ps) ! i) \<and>
           snd ((p # ps) ! i) \<le> m \<and> m \<le> snd ((p # ps) ! Suc i)"
proof (induction ps arbitrary: p)
  case Nil
  then show ?case by simp
next
  case (Cons q qs)
  show ?case
  proof (cases "fst q \<le> v \<and> v \<le> fst p")
    case True
    then have "r = banded ts (Fin (of_int (segRank p q v))) (Fin v)"
      using Cons.prems interpolate_match [of q p v ts "map entry qs"] by simp
    moreover have "snd p \<le> segRank p q v \<and> segRank p q v \<le> snd q"
      using Cons.prems(1) True by (intro segRank_bounds) simp_all
    ultimately show ?thesis using True
      by (intro exI [of _ 0] exI [of _ "segRank p q v"]) simp
  next
    case False
    then have "interpolate ts (map entry (q # qs)) (Fin v) = Some r"
      using Cons.prems(2) interpolate_skip [of q v p ts "map entry qs"] by simp
    moreover have "monotonic (q # qs)" using Cons.prems(1) by simp
    ultimately obtain i m where "Suc i < length (q # qs)" "r = banded ts (Fin (of_int m)) (Fin v)"
        "fst ((q # qs) ! Suc i) \<le> v" "v \<le> fst ((q # qs) ! i)"
        "snd ((q # qs) ! i) \<le> m" "m \<le> snd ((q # qs) ! Suc i)"
      using Cons.IH by blast
    then show ?thesis by (intro exI [of _ "Suc i"] exI [of _ m]) simp
  qed
qed

lemma interior_prediction:
  assumes "predictKCETRank ts cet puc = Inr r"
    and "js_lt (lit (3500 / 100)) (composite r)" "js_lt (composite r) (lit (9622 / 100))"
  obtains v i m where "composite r = Fin v" "r = banded ts (Fin (of_int m)) (Fin v)"
    "81 \<le> m" "m \<le> 259000" "Suc i < length points"
    "fst (points ! Suc i) \<le> v" "v \<le> fst (points ! i)"
    "snd (points ! i) \<le> m" "m \<le> snd (points ! Suc i)"
proof -
  obtain v where v: "combinedScore cet puc = Fin v" "0 \<le> v" "v \<le> 100" "firstPass ts (Fin v) = Some r"
    using assms(1) by (rule predict_valid)
  have c: "composite r = Fin v" using firstPass_valid [OF v(2,3), of ts] v(4) by auto
  have iv: "35 < v" "v < 3385440282387415 / 35184372088832"
    using assms(2,3) unfolding c by (simp_all add: lit_normal)
  obtain m0 where m0: "r = banded ts (Fin (of_int m0)) (Fin v)" "81 \<le> m0" "m0 \<le> 259000"
    using firstPass_interior_Some [OF iv, of ts] v(4) by auto
  have mono: "monotonic (hd points # tl points)" using points_monotonic points_shape(1) by simp
  have "interpolate ts (map entry (hd points # tl points)) (Fin v) = Some r"
    using firstPass_interior [OF iv, of ts] v(4) points_shape(1) by simp
  then obtain i m where im: "Suc i < length (hd points # tl points)"
      "r = banded ts (Fin (of_int m)) (Fin v)"
      "fst ((hd points # tl points) ! Suc i) \<le> v" "v \<le> fst ((hd points # tl points) ! i)"
      "snd ((hd points # tl points) ! i) \<le> m" "m \<le> snd ((hd points # tl points) ! Suc i)"
    using interpolate_bracket [OF mono] by blast
  have "medium r = Fin (of_int m)" by (subst im(2)) (simp add: banded_sel)
  moreover have "medium r = Fin (of_int m0)" by (subst m0(1)) (simp add: banded_sel)
  ultimately have "m = m0" by simp
  then show ?thesis using that [of v m i] c im m0 points_shape(1) by simp
qed

lemma getCollegeSuggestions_plain:
  assumes "category \<notin> set objectPrototypeKeys"
  shows "getCollegeSuggestions r category =
     Inr (case find (\<lambda>s. case threshold s of Some t \<Rightarrow> js_le r t | None \<Rightarrow> False)
                 (suggestionTable category) of
            Some s \<Rightarrow> s
          | None \<Rightarrow> \<lparr>threshold = None, name = ''Other colleges'', branch = ''All branches''\<rparr>)"
  using assms
  by (simp add: getCollegeSuggestions_def colleges_def suggestionTable_def objectPrototypeKeys_def
      general_def split: option.splits)

text \<open>
  The two decimals are those nearest to the double that the division and the
  multiplication produce, not to the exact quotient: at rank 259961 the exact percentage
  is 0.015, the double is just below it, and the result is "0.01%".
\<close>

lemma percentile_259961:
  "fmul (fdiv (fsub (Fin 260000) (Fin 259961)) (Fin 260000)) (Fin 100)
     = Fin (1080863910568919 / 72057594037927936) \<and>
   (1080863910568919 / 72057594037927936 :: rat) < 15 / 1000 \<and>
   calculatePercentile ts (Fin 259961) = ''0.01%''"
  by (simp add: calculatePercentile_def toFixed_def fsub_def showNat_eval ev)

subsection \<open>The five per cent bands in exact arithmetic\<close>

lemma round_fin_dyadic:
  assumes "0 < n" "n \<le> 2 ^ 53" "j \<le> 1000"
  shows "round_fin (of_int n / 2 ^ j) = of_int n / 2 ^ j"
proof -
  define x where "x = rat_of_int n / 2 ^ j"
  define e where "e = expo x"
  have n1: "1 \<le> rat_of_int n" using assms(1) by simp
  have xpos: "0 < x" using assms(1) by (simp add: x_def)
  have nle: "rat_of_int n \<le> 2 ^ 53"
  proof -
    have "rat_of_int n \<le> rat_of_int (2 ^ 53)" using assms(2) by (simp only: of_int_le_iff)
    then show ?thesis by simp
  qed
  have pj: "(2::rat) powi (- int j) = 1 / 2 ^ j" by (simp add: power_int_minus field_simps)
  have xlo: "2 powi (- int j) \<le> x" unfolding pj x_def using n1 by (simp add: field_simps)
  have xhi: "x \<le> 2 powi (53 - int j)"
  proof -
    have "(2::rat) powi (53 - int j) = 2 powi 53 * 2 powi (- int j)"
      using power_int_add [of "2::rat" 53 "- int j"] by simp
    then show ?thesis unfolding pj x_def using nle by (simp add: field_simps)
  qed
  have eb: "2 powi e \<le> x" "x < 2 powi (e + 1)" using expo_bounds [OF xpos] by (simp_all add: e_def)
  have elo: "- int j \<le> e"
  proof (rule ccontr)
    assume "\<not> - int j \<le> e"
    then have "e + 1 \<le> - int j" by simp
    then have "(2::rat) powi (e + 1) \<le> 2 powi (- int j)" by (intro power_int_increasing) simp_all
    then show False using eb(2) xlo by simp
  qed
  have ehi: "e \<le> 53 - int j"
  proof (rule ccontr)
    assume "\<not> e \<le> 53 - int j"
    then have "53 - int j + 1 \<le> e" by simp
    then have "(2::rat) powi (53 - int j + 1) \<le> 2 powi e" by (intro power_int_increasing) simp_all
    moreover have "(2::rat) powi (53 - int j) < 2 powi (53 - int j + 1)"
      by (intro power_int_strict_increasing) simp_all
    ultimately show False using eb(1) xhi by simp
  qed
  have q: "quantum x = 2 powi (e - 52)"
    using xpos elo assms(3) by (simp add: quantum_def e_def max_def)
  have xq: "x / quantum x = of_int n * 2 powi (52 - e - int j)"
  proof -
    have a: "x = of_int n * 2 powi (- int j)" unfolding pj by (simp add: x_def)
    have b: "1 / (2::rat) powi (e - 52) = 2 powi (- (e - 52))"
      unfolding power_int_minus [of "2::rat" "e - 52"] by (simp add: divide_inverse)
    have c: "(2::rat) powi (- int j) * 2 powi (- (e - 52)) = 2 powi (- int j + - (e - 52))"
      by (rule power_int_add [symmetric]) simp
    have d: "- int j + - (e - 52) = 52 - e - int j" by simp
    have "x / quantum x = x * (1 / 2 powi (e - 52))" unfolding q by simp
    also have "\<dots> = of_int n * (2 powi (- int j) * 2 powi (- (e - 52)))" unfolding b a by simp
    finally show ?thesis unfolding c d .
  qed
  have "\<exists>m. x / quantum x = of_int m"
  proof (cases "e = 53 - int j")
    case True
    then have "2 powi (53 - int j) \<le> x" using eb(1) by simp
    then have "x = 2 powi (53 - int j)" using xhi by simp
    then have "x / quantum x = 2 powi (53 - int j) / 2 powi (53 - int j - 52)" unfolding q True by simp
    also have "\<dots> = 2 powi 52"
      using power_int_diff [of "2::rat" "53 - int j" "53 - int j - 52"] by simp
    finally have "x / quantum x = of_int (2 ^ 52)" by simp
    then show ?thesis by blast
  next
    case False
    then have "0 \<le> 52 - e - int j" using ehi by simp
    then have "(2::rat) powi (52 - e - int j) = 2 ^ nat (52 - e - int j)"
      by (simp add: power_int_def)
    then have "x / quantum x = of_int (n * 2 ^ nat (52 - e - int j))" unfolding xq by simp
    then show ?thesis by blast
  qed
  then show ?thesis using round_fin_exact unfolding x_def by blast
qed

lemma round_fin_near_below:
  assumes "0 < y" "y \<le> x" "x / quantum y = of_int N" "x - y < quantum y / 2"
  shows "round_fin y = x"
proof -
  define q where "q = quantum y"
  have qpos: "0 < q" unfolding q_def by (rule quantum_pos)
  define t where "t = (x - y) / q"
  have t: "0 \<le> t" "t < 1 / 2" using assms(2,4) qpos by (simp_all add: t_def q_def [symmetric] field_simps)
  have yq: "y / q = of_int N - t"
    using assms(3) qpos unfolding t_def q_def [symmetric] by (simp add: field_simps)
  have "round_half_even (of_int N - t) = N"
  proof (cases "t = 0")
    case True
    then show ?thesis by (simp add: rhe_of_int)
  next
    case False
    then have tp: "0 < t" using t(1) by simp
    have fl: "\<lfloor>rat_of_int N - t\<rfloor> = N - 1" using tp t(2) by (intro floor_unique) simp_all
    show ?thesis unfolding round_half_even_def Let_def fl using tp t(2) by simp
  qed
  then have "of_int (round_half_even (y / q)) * q = x"
    unfolding yq using assms(3) qpos by (simp add: q_def [symmetric] field_simps)
  then show ?thesis using assms(1) by (simp add: round_fin_def q_def)
qed


lemma half_grid:
  assumes "1 \<le> k" "k \<le> 2 ^ 40"
  shows "round_fin (of_int (2 * k - 1) / 2) = of_int (2 * k - 1) / 2"
    and "round_fin (of_int (32 * k + 15) / 32) = of_int (32 * k + 15) / 32"
proof -
  have "round_fin (of_int (2 * k - 1) / 2 ^ 1) = of_int (2 * k - 1) / 2 ^ 1"
    using assms by (intro round_fin_dyadic) simp_all
  then show "round_fin (of_int (2 * k - 1) / 2) = of_int (2 * k - 1) / 2" by simp
  have "round_fin (of_int (32 * k + 15) / 2 ^ 5) = of_int (32 * k + 15) / 2 ^ 5"
    using assms by (intro round_fin_dyadic) simp_all
  then show "round_fin (of_int (32 * k + 15) / 32) = of_int (32 * k + 15) / 32" by simp
qed

lemma band_arith_low_up:
  fixes M K R :: rat
  assumes "19 * M = 20 * K + R - 10" "0 \<le> R" "R \<le> 19" "1 \<le> M" "M \<le> 262144"
  shows "19 * M / 20 - M / 22517998136852480 \<le> (32 * K + 15) / 32"
proof -
  have "19 * M / 20 = K + R / 20 - 1 / 2" unfolding assms(1) by (simp add: field_simps)
  moreover have "0 \<le> M / 22517998136852480" using assms(4) by simp
  moreover have "(32 * K + 15) / 32 = K + 15 / 32" by (simp add: field_simps)
  ultimately show ?thesis using assms(2,3) by linarith
qed

lemma band_arith_high_up:
  fixes M K R :: rat
  assumes "21 * M = 20 * K + R - 10" "0 \<le> R" "R \<le> 19" "1 \<le> M" "M \<le> 262144"
  shows "21 * M / 20 + M / 22517998136852480 \<le> (32 * K + 15) / 32"
proof -
  have "21 * M / 20 = K + R / 20 - 1 / 2" unfolding assms(1) by (simp add: field_simps)
  moreover have "M / 22517998136852480 \<le> 1 / 1000" using assms(5) by simp
  moreover have "(32 * K + 15) / 32 = K + 15 / 32" by (simp add: field_simps)
  ultimately show ?thesis using assms(2,3) by linarith
qed

lemma band_arith_low_down:
  fixes M K R :: rat
  assumes "19 * M = 20 * K + R - 10" "1 \<le> R" "R \<le> 19" "1 \<le> M" "M \<le> 262144"
  shows "(2 * K - 1) / 2 \<le> 19 * M / 20 - M / 22517998136852480"
proof -
  have "19 * M / 20 = K + R / 20 - 1 / 2" unfolding assms(1) by (simp add: field_simps)
  moreover have "M / 22517998136852480 \<le> 1 / 1000" using assms(5) by simp
  moreover have "(2 * K - 1) / 2 = K - 1 / 2" by (simp add: field_simps)
  ultimately show ?thesis using assms(2,3) by linarith
qed

lemma band_arith_high_down:
  fixes M K R :: rat
  assumes "21 * M = 20 * K + R - 10" "0 \<le> R" "R \<le> 19" "1 \<le> M" "M \<le> 262144"
  shows "(2 * K - 1) / 2 \<le> 21 * M / 20 + M / 22517998136852480"
proof -
  have "21 * M / 20 = K + R / 20 - 1 / 2" unfolding assms(1) by (simp add: field_simps)
  moreover have "0 \<le> M / 22517998136852480" using assms(4) by simp
  moreover have "(2 * K - 1) / 2 = K - 1 / 2" by (simp add: field_simps)
  ultimately show ?thesis using assms(2,3) by linarith
qed

lemma band_arith_tie:
  fixes M K R :: rat
  assumes "19 * M = 20 * K + R - 10" "R = 0" "1 \<le> M" "M \<le> 262144"
  shows "(2 * K - 1) / 2 - (19 * M / 20 - M / 22517998136852480) = M / 22517998136852480"
    and "19 * M / 20 - M / 22517998136852480 \<le> (2 * K - 1) / 2"
proof -
  have a: "19 * M / 20 = K - 1 / 2" unfolding assms(1,2) by (simp add: field_simps)
  have b: "0 \<le> M / 22517998136852480" using assms(3) by simp
  have c: "(2 * K - 1) / 2 = K - 1 / 2" by (simp add: field_simps)
  show "(2 * K - 1) / 2 - (19 * M / 20 - M / 22517998136852480) = M / 22517998136852480"
    unfolding a c by simp
  show "19 * M / 20 - M / 22517998136852480 \<le> (2 * K - 1) / 2" unfolding a c using b by simp
qed

lemma band_low_exact:
  assumes "1 \<le> m" "m \<le> 2 ^ 18"
  shows "math_round (fmul (Fin (of_int m)) (lit (95 / 100))) = Fin (of_int ((19 * m + 10) div 20))"
proof -
  define z :: rat where "z = 4278419646001971 / 4503599627370496"
  define y where "y = rat_of_int m * z"
  define k where "k = (19 * m + 10) div 20"
  define r where "r = (19 * m + 10) mod 20"
  have kr: "19 * m + 10 = 20 * k + r" "0 \<le> r" "r < 20" by (simp_all add: k_def r_def)
  have k1: "1 \<le> k" "k \<le> 2 ^ 40" using assms unfolding k_def by simp_all
  define M where "M = rat_of_int m"
  define K where "K = rat_of_int k"
  define R where "R = rat_of_int r"
  have mr: "1 \<le> M" "M \<le> 262144"
  proof -
    have "rat_of_int 1 \<le> rat_of_int m" "rat_of_int m \<le> rat_of_int (2 ^ 18)"
      using assms by (simp_all only: of_int_le_iff)
    then show "1 \<le> M" "M \<le> 262144" by (simp_all add: M_def)
  qed
  have "rat_of_int (19 * m + 10) = rat_of_int (20 * k + r)" using kr(1) by simp
  then have x: "19 * M = 20 * K + R - 10" by (simp add: M_def K_def R_def)
  have rr: "0 \<le> R" "R \<le> 19"
  proof -
    have "rat_of_int 0 \<le> rat_of_int r" "rat_of_int r \<le> rat_of_int 19"
      using kr(2,3) by (simp_all only: of_int_le_iff)
    then show "0 \<le> R" "R \<le> 19" by (simp_all add: R_def)
  qed
  have g: "rat_of_int (32 * k + 15) / 32 = (32 * K + 15) / 32" "rat_of_int (2 * k - 1) / 2 = (2 * K - 1) / 2"
    by (simp_all add: K_def)
  have yx: "y = 19 * M / 20 - M / 22517998136852480" by (simp add: y_def z_def M_def)
  have b: "rat_of_int 0 \<le> y" "y \<le> rat_of_int m" using mr by (simp_all add: y_def z_def M_def)
  have kk: "\<bar>0::int\<bar> \<le> 2 ^ 53" "\<bar>m\<bar> \<le> 2 ^ 53" using assms by simp_all
  have e: "fmul (Fin (of_int m)) (lit (95 / 100)) = Fin (round_fin y)"
    using rnd_between [OF b kk] by (simp add: lit_normal y_def z_def)
  have up: "round_fin y \<le> of_int (32 * k + 15) / 32"
  proof -
    have "y \<le> of_int (32 * k + 15) / 32" unfolding yx g using x rr mr by (rule band_arith_low_up)
    then have "round_fin y \<le> round_fin (of_int (32 * k + 15) / 32)" by (rule round_fin_mono)
    then show ?thesis unfolding half_grid(2) [OF k1] .
  qed
  have lo: "of_int (2 * k - 1) / 2 \<le> round_fin y"
  proof (cases "r = 0")
    case False
    then have "1 \<le> r" using kr(2) by simp
    then have "rat_of_int 1 \<le> rat_of_int r" by (simp only: of_int_le_iff)
    then have "1 \<le> R" by (simp add: R_def)
    then have "of_int (2 * k - 1) / 2 \<le> y" unfolding yx g using x rr(2) mr by (intro band_arith_low_down)
    then have "round_fin (of_int (2 * k - 1) / 2) \<le> round_fin y" by (rule round_fin_mono)
    then show ?thesis unfolding half_grid(1) [OF k1] .
  next
    case True
    define xx where "xx = rat_of_int (2 * k - 1) / 2"
    define ex where "ex = expo y"
    have R0: "R = 0" using True by (simp add: R_def)
    have xy: "xx - y = M / 22517998136852480" "y \<le> xx"
      unfolding xx_def yx g
      using band_arith_tie [OF x R0 mr] by simp_all
    have ypos: "0 < y" "1 / 2 \<le> y" "y \<le> 2 powi 18" using mr by (simp_all add: y_def z_def M_def)
    have eb: "2 powi ex \<le> y" "y < 2 powi (ex + 1)" using expo_bounds [OF ypos(1)] by (simp_all add: ex_def)
    have elo: "- 1 \<le> ex"
    proof (rule ccontr)
      assume "\<not> - 1 \<le> ex"
      then have "ex + 1 \<le> - 1" by simp
      then have "(2::rat) powi (ex + 1) \<le> 2 powi (- 1)" by (intro power_int_increasing) simp_all
      then show False using eb(2) ypos(2) by simp
    qed
    have ehi: "ex \<le> 18"
    proof (rule ccontr)
      assume "\<not> ex \<le> 18"
      then have "18 + 1 \<le> ex" by simp
      then have "(2::rat) powi (18 + 1) \<le> 2 powi ex" by (intro power_int_increasing) simp_all
      moreover have "(2::rat) powi 18 < 2 powi (18 + 1)" by simp
      ultimately show False using eb(1) ypos(3) by linarith
    qed
    have q: "quantum y = 2 powi (ex - 52)" using ypos(1) elo by (simp add: quantum_def ex_def max_def)
    have p1: "(2::rat) powi (ex + 1) = 2 * 2 powi ex"
      using power_int_add [of "2::rat" ex 1] by simp
    have p2: "(2::rat) powi ex = 2 powi (ex - 52) * 2 ^ 52" using quantum_scale(2) [of ex] by simp
    define P where "P = (2::rat) powi (ex - 52)"
    have "M * z < 2 * (P * 2 ^ 52)" using eb(2) unfolding p1 p2 y_def M_def P_def .
    then have "M / 22517998136852480 < P / 2" using mr unfolding z_def by simp
    then have half: "xx - y < quantum y / 2" unfolding xy(1) q P_def .
    have "0 \<le> 51 - ex" using ehi by simp
    then have p3: "(2::rat) powi (51 - ex) = 2 ^ nat (51 - ex)" by (simp add: power_int_def)
    have p4: "(2::rat) powi (51 - ex) * 2 powi (ex - 52) = 2 powi (51 - ex + (ex - 52))"
      by (rule power_int_add [symmetric]) simp
    have h: "(2::rat) ^ nat (51 - ex) * 2 powi (ex - 52) = 1 / 2"
      unfolding p3 [symmetric] p4 by simp
    have "of_int ((2 * k - 1) * 2 ^ nat (51 - ex)) * 2 powi (ex - 52)
            = rat_of_int (2 * k - 1) * (2 ^ nat (51 - ex) * 2 powi (ex - 52))"
      by (simp only: of_int_mult of_int_power of_int_numeral mult.assoc)
    also have "\<dots> = xx" unfolding h xx_def by simp
    finally have "xx = of_int ((2 * k - 1) * 2 ^ nat (51 - ex)) * 2 powi (ex - 52)" by simp
    then have N: "xx / quantum y = of_int ((2 * k - 1) * 2 ^ nat (51 - ex))" unfolding q by simp
    have "round_fin y = xx" using ypos(1) xy(2) N half by (rule round_fin_near_below)
    then show ?thesis by (simp add: xx_def)
  qed
  have "of_int k \<le> round_fin y + 1 / 2" using lo by simp
  moreover have "round_fin y + 1 / 2 < of_int k + 1" using up by simp
  ultimately have "\<lfloor>round_fin y + 1 / 2\<rfloor> = k" by (intro floor_unique) simp_all
  then show ?thesis unfolding e k_def by simp
qed

lemma band_high_exact:
  assumes "1 \<le> m" "m \<le> 2 ^ 18"
  shows "math_round (fmul (Fin (of_int m)) (lit (105 / 100))) = Fin (of_int ((21 * m + 10) div 20))"
proof -
  define z :: rat where "z = 4728779608739021 / 4503599627370496"
  define y where "y = rat_of_int m * z"
  define k where "k = (21 * m + 10) div 20"
  define r where "r = (21 * m + 10) mod 20"
  have kr: "21 * m + 10 = 20 * k + r" "0 \<le> r" "r < 20" by (simp_all add: k_def r_def)
  have k1: "1 \<le> k" "k \<le> 2 ^ 40" using assms unfolding k_def by simp_all
  define M where "M = rat_of_int m"
  define K where "K = rat_of_int k"
  define R where "R = rat_of_int r"
  have mr: "1 \<le> M" "M \<le> 262144"
  proof -
    have "rat_of_int 1 \<le> rat_of_int m" "rat_of_int m \<le> rat_of_int (2 ^ 18)"
      using assms by (simp_all only: of_int_le_iff)
    then show "1 \<le> M" "M \<le> 262144" by (simp_all add: M_def)
  qed
  have "rat_of_int (21 * m + 10) = rat_of_int (20 * k + r)" using kr(1) by simp
  then have x: "21 * M = 20 * K + R - 10" by (simp add: M_def K_def R_def)
  have rr: "0 \<le> R" "R \<le> 19"
  proof -
    have "rat_of_int 0 \<le> rat_of_int r" "rat_of_int r \<le> rat_of_int 19"
      using kr(2,3) by (simp_all only: of_int_le_iff)
    then show "0 \<le> R" "R \<le> 19" by (simp_all add: R_def)
  qed
  have g: "rat_of_int (32 * k + 15) / 32 = (32 * K + 15) / 32" "rat_of_int (2 * k - 1) / 2 = (2 * K - 1) / 2"
    by (simp_all add: K_def)
  have yx: "y = 21 * M / 20 + M / 22517998136852480" by (simp add: y_def z_def M_def)
  have b: "rat_of_int m \<le> y" "y \<le> rat_of_int (2 * m)" using mr by (simp_all add: y_def z_def M_def)
  have kk: "\<bar>m\<bar> \<le> 2 ^ 53" "\<bar>2 * m\<bar> \<le> 2 ^ 53" using assms by simp_all
  have e: "fmul (Fin (of_int m)) (lit (105 / 100)) = Fin (round_fin y)"
    using rnd_between [OF b kk] by (simp add: lit_normal y_def z_def)
  have up: "round_fin y \<le> of_int (32 * k + 15) / 32"
  proof -
    have "y \<le> of_int (32 * k + 15) / 32" unfolding yx g using x rr mr by (rule band_arith_high_up)
    then have "round_fin y \<le> round_fin (of_int (32 * k + 15) / 32)" by (rule round_fin_mono)
    then show ?thesis unfolding half_grid(2) [OF k1] .
  qed
  have lo: "of_int (2 * k - 1) / 2 \<le> round_fin y"
  proof -
    have "of_int (2 * k - 1) / 2 \<le> y" unfolding yx g using x rr mr by (rule band_arith_high_down)
    then have "round_fin (of_int (2 * k - 1) / 2) \<le> round_fin y" by (rule round_fin_mono)
    then show ?thesis unfolding half_grid(1) [OF k1] .
  qed
  have "of_int k \<le> round_fin y + 1 / 2" using lo by simp
  moreover have "round_fin y + 1 / 2 < of_int k + 1" using up by simp
  ultimately have "\<lfloor>round_fin y + 1 / 2\<rfloor> = k" by (intro floor_unique) simp_all
  then show ?thesis unfolding e k_def by simp
qed

section \<open>The claims\<close>

text \<open>
  C1: \<open>predictKCETRank\<close> fails, with the one error it has, exactly when the composite is
  not a number or lies outside the closed interval from 0 to 100; for every input whose
  composite is a number in that interval it returns a prediction carrying that composite,
  whatever the two marks were.
\<close>

theorem predictKCETRank_rejects_exactly_invalid:
  "(valid_composite (combinedScore cet puc) \<longrightarrow>
      (\<exists>r. predictKCETRank ts cet puc = Inr r \<and> composite r = combinedScore cet puc)) \<and>
   (\<not> valid_composite (combinedScore cet puc) \<longrightarrow>
      predictKCETRank ts cet puc = Inl (Error ''Please enter valid marks (KCET: 0-180, PUC: 0-100)''))"
proof (cases "valid_composite (combinedScore cet puc)")
  case True
  then obtain v where v: "combinedScore cet puc = Fin v" "0 \<le> v" "v \<le> 100"
    by (rule valid_compositeE)
  obtain r where "firstPass ts (Fin v) = Some r" "composite r = Fin v"
    using firstPass_valid [OF v(2,3), of ts] by blast
  then show ?thesis using True v(1) by (simp add: predict_unfold)
next
  case False
  then show ?thesis by (simp add: predict_unfold)
qed

theorem predictKCETRank_rejects_exactly_invalid_witness:
  "valid_composite (combinedScore (Fin (- 18)) (Fin 100)) \<and>
   (\<exists>r. predictKCETRank exampleHost (Fin (- 18)) (Fin 100) = Inr r \<and> composite r = Fin 34) \<and>
   \<not> valid_composite (combinedScore NaN (Fin 50)) \<and>
   predictKCETRank exampleHost NaN (Fin 50)
     = Inl (Error ''Please enter valid marks (KCET: 0-180, PUC: 0-100)'')"
proof -
  have a: "combinedScore (Fin (- 18)) (Fin 100) = Fin 34" by (simp add: combinedScore_def ev)
  have b: "combinedScore NaN (Fin 50) = NaN" by (simp add: combinedScore_def ev)
  show ?thesis
    using predictKCETRank_rejects_exactly_invalid [of "Fin (- 18)" "Fin 100" exampleHost]
      predictKCETRank_rejects_exactly_invalid [of NaN "Fin 50" exampleHost]
    by (simp add: a b valid_composite_def)
qed

text \<open>
  C2: for two inputs with valid composites a < b, both predictions are returned and the
  medium rank for a is greater than or equal to the medium rank for b.
\<close>

theorem higher_composite_no_worse_rank:
  assumes "valid_composite (combinedScore cet1 puc1)" "valid_composite (combinedScore cet2 puc2)"
    and "js_lt (combinedScore cet1 puc1) (combinedScore cet2 puc2)"
  shows "\<exists>r1 r2. predictKCETRank ts cet1 puc1 = Inr r1 \<and> predictKCETRank ts cet2 puc2 = Inr r2 \<and>
           js_ge (medium r1) (medium r2)"
proof -
  obtain a where a: "combinedScore cet1 puc1 = Fin a" "0 \<le> a" "a \<le> 100"
    using assms(1) by (rule valid_compositeE)
  obtain b where b: "combinedScore cet2 puc2 = Fin b" "0 \<le> b" "b \<le> 100"
    using assms(2) by (rule valid_compositeE)
  have ab: "a < b" using assms(3) a(1) b(1) by simp
  let ?top = "3385440282387415 / 35184372088832 :: rat"
  obtain r1 m1 where r1: "firstPass ts (Fin a) = Some r1" "medium r1 = Fin (of_int m1)"
      "1 \<le> m1" "m1 \<le> 260000" "?top \<le> a \<longrightarrow> m1 = 1" "a \<le> 35 \<longrightarrow> m1 = 260000"
    using firstPass_valid [OF a(2,3), of ts] by blast
  obtain r2 m2 where r2: "firstPass ts (Fin b) = Some r2" "medium r2 = Fin (of_int m2)"
      "1 \<le> m2" "m2 \<le> 260000" "?top \<le> b \<longrightarrow> m2 = 1" "b \<le> 35 \<longrightarrow> m2 = 260000"
    using firstPass_valid [OF b(2,3), of ts] by blast
  have "m2 \<le> m1"
  proof -
    consider "?top \<le> b" | "a \<le> 35" | "35 < a" "b < ?top" by linarith
    then show ?thesis
    proof cases
      case 1
      then show ?thesis using r1(3) r2(5) by simp
    next
      case 2
      then show ?thesis using r1(6) r2(4) by simp
    next
      case 3
      have "a \<le> b" using ab by simp
      then obtain n1 n2 where "medium r1 = Fin (of_int n1)" "medium r2 = Fin (of_int n2)" "n2 \<le> n1"
        using firstPass_interior_antimono [OF 3(1) _ 3(2) r1(1) r2(1)] by blast
      then show ?thesis using r1(2) r2(2) by simp
    qed
  qed
  then have "js_ge (medium r1) (medium r2)" using r1(2) r2(2) by (simp add: js_ge_def)
  moreover have "predictKCETRank ts cet1 puc1 = Inr r1" "predictKCETRank ts cet2 puc2 = Inr r2"
    using assms(1,2) a(1) b(1) r1(1) r2(1) by (simp_all add: predict_unfold)
  ultimately show ?thesis by blast
qed

theorem higher_composite_no_worse_rank_witness:
  "valid_composite (combinedScore (Fin 144) (Fin 80)) \<and>
   valid_composite (combinedScore (Fin 162) (Fin 96)) \<and>
   js_lt (combinedScore (Fin 144) (Fin 80)) (combinedScore (Fin 162) (Fin 96)) \<and>
   (\<exists>r1 r2. predictKCETRank exampleHost (Fin 144) (Fin 80) = Inr r1 \<and>
      predictKCETRank exampleHost (Fin 162) (Fin 96) = Inr r2 \<and> js_ge (medium r1) (medium r2))"
proof -
  have h: "valid_composite (combinedScore (Fin 144) (Fin 80))"
    "valid_composite (combinedScore (Fin 162) (Fin 96))"
    "js_lt (combinedScore (Fin 144) (Fin 80)) (combinedScore (Fin 162) (Fin 96))"
    by (simp_all add: composite_samples valid_composite_def)
  show ?thesis using h higher_composite_no_worse_rank [OF h, of exampleHost] by simp
qed

text \<open>
  C3, as stated, fails: a composite above 100 is at least 96.22 and a composite below 0 is
  at most 35.00, and both are rejected.
\<close>

theorem extremes_counterexample:
  "js_ge (combinedScore (Fin 180) (Fin 200)) (lit (9622 / 100)) \<and>
   predictKCETRank exampleHost (Fin 180) (Fin 200)
     = Inl (Error ''Please enter valid marks (KCET: 0-180, PUC: 0-100)'') \<and>
   js_le (combinedScore (Fin 0) (Fin (- 10))) (lit (3500 / 100)) \<and>
   predictKCETRank exampleHost (Fin 0) (Fin (- 10))
     = Inl (Error ''Please enter valid marks (KCET: 0-180, PUC: 0-100)'')"
  by (simp add: predict_unfold composite_samples valid_composite_def lit_normal js_ge_def)

text \<open>
  C3, amended: for every input whose composite is valid, a composite of at least 96.22
  gives low = medium = high = 1, and a composite of at most 35.00 gives
  250000 / 260000 / 270000.
\<close>

theorem valid_extremes:
  assumes "valid_composite (combinedScore cet puc)"
  shows "(js_ge (combinedScore cet puc) (lit (9622 / 100)) \<longrightarrow>
            (\<exists>r. predictKCETRank ts cet puc = Inr r \<and>
               low r = Fin 1 \<and> medium r = Fin 1 \<and> high r = Fin 1)) \<and>
         (js_le (combinedScore cet puc) (lit (3500 / 100)) \<longrightarrow>
            (\<exists>r. predictKCETRank ts cet puc = Inr r \<and>
               low r = Fin 250000 \<and> medium r = Fin 260000 \<and> high r = Fin 270000))"
proof -
  obtain v where v: "combinedScore cet puc = Fin v" "0 \<le> v" "v \<le> 100"
    using assms by (rule valid_compositeE)
  have top: "3385440282387415 / 35184372088832 \<le> v \<Longrightarrow>
      \<exists>r. predictKCETRank ts cet puc = Inr r \<and> low r = Fin 1 \<and> medium r = Fin 1 \<and> high r = Fin 1"
    using assms v(1) by (simp add: predict_unfold firstPass_top)
  have bottom: "v \<le> 35 \<Longrightarrow>
      \<exists>r. predictKCETRank ts cet puc = Inr r \<and>
        low r = Fin 250000 \<and> medium r = Fin 260000 \<and> high r = Fin 270000"
    using assms v(1) by (simp add: predict_unfold firstPass_bottom)
  show ?thesis using top bottom unfolding v(1) by (simp add: lit_normal js_ge_def)
qed

theorem valid_extremes_witness:
  "valid_composite (combinedScore (Fin 180) (Fin 100)) \<and>
   js_ge (combinedScore (Fin 180) (Fin 100)) (lit (9622 / 100)) \<and>
   (\<exists>r. predictKCETRank exampleHost (Fin 180) (Fin 100) = Inr r \<and>
      low r = Fin 1 \<and> medium r = Fin 1 \<and> high r = Fin 1) \<and>
   valid_composite (combinedScore (Fin 0) (Fin 0)) \<and>
   js_le (combinedScore (Fin 0) (Fin 0)) (lit (3500 / 100)) \<and>
   (\<exists>r. predictKCETRank exampleHost (Fin 0) (Fin 0) = Inr r \<and>
      low r = Fin 250000 \<and> medium r = Fin 260000 \<and> high r = Fin 270000)"
proof -
  have h: "valid_composite (combinedScore (Fin 180) (Fin 100))"
    "valid_composite (combinedScore (Fin 0) (Fin 0))"
    by (simp_all add: composite_samples valid_composite_def)
  have g: "js_ge (combinedScore (Fin 180) (Fin 100)) (lit (9622 / 100))"
    "js_le (combinedScore (Fin 0) (Fin 0)) (lit (3500 / 100))"
    by (simp_all add: composite_samples lit_normal js_ge_def)
  show ?thesis
    using h g valid_extremes [OF h(1), of exampleHost] valid_extremes [OF h(2), of exampleHost]
    by blast
qed

text \<open>
  C4: at examScore = 0 and pucScore = 0 the composite is 0 and the medium rank is 260000,
  but the band the code returns is the fixed label "Lower", where the rank ladder
  \<open>getRankBand\<close> puts 260000 in "Very Poor".
\<close>

theorem zero_marks_band:
  "combinedScore (Fin 0) (Fin 0) = Fin 0 \<and>
   predictKCETRank ts (Fin 0) (Fin 0) =
     Inr \<lparr>low = Fin 250000, medium = Fin 260000, high = Fin 270000, composite = Fin 0,
          percentile = Some ''Bottom 20%'', rankBand = Some ''Lower'',
          competitionLevel = Some ''Moderate''\<rparr> \<and>
   getRankBand (Fin 260000) = ''Very Poor''"
  by (simp add: predict_unfold composite_samples valid_composite_def firstPass_bottom getRankBand_def)

text \<open>
  C5, as stated, fails: at examScore = 162 and pucScore = 96 the medium rank is not 714,
  and 714 is further from it than any rounding explains.
\<close>

theorem scenario_162_96_counterexample:
  "medium (projr (predictKCETRank exampleHost (Fin 162) (Fin 96))) = Fin 691 \<and>
   medium (projr (predictKCETRank exampleHost (Fin 162) (Fin 96))) \<noteq> Fin 714 \<and>
   \<lfloor>(308 + (9406 / 100 - 924 / 10) / (9406 / 100 - 9000 / 100) * (1245 - 308) :: rat) + 1 / 2\<rfloor> = 691"
  by (simp add: prediction_162_96 floor_frac_rat)

text \<open>
  C5, amended: at examScore = 162 and pucScore = 96 the composite is the double 92.4, the
  interpolation between (94.06, 308) and (90.00, 1245) gives medium = 691 with
  low = 656 and high = 726, and the rank band is "Excellent".
\<close>

theorem scenario_162_96:
  "combinedScore (Fin 162) (Fin 96) = lit (924 / 10) \<and>
   js_le (score (kcet2025RankTable ! 2)) (combinedScore (Fin 162) (Fin 96)) \<and>
   js_le (combinedScore (Fin 162) (Fin 96)) (score (kcet2025RankTable ! 1)) \<and>
   kcet2025RankTable ! 1 = \<lparr>score = lit (9406 / 100), rank = Fin 308\<rparr> \<and>
   kcet2025RankTable ! 2 = \<lparr>score = lit (9000 / 100), rank = Fin 1245\<rparr> \<and>
   (\<exists>r. predictKCETRank ts (Fin 162) (Fin 96) = Inr r \<and>
      low r = Fin 656 \<and> medium r = Fin 691 \<and> high r = Fin 726 \<and>
      rankBand r = Some ''Excellent'')"
  by (simp add: prediction_162_96 composite_samples) (simp add: kcet2025RankTable_def ev)

text \<open>
  C6: for every prediction whose composite lies strictly between 35.00 and 96.22,
  low = round(0.95 * medium) and high = round(1.05 * medium), both as the code computes
  them in doubles and as the exact integers \<open>(19 * m + 10) div 20\<close> and
  \<open>(21 * m + 10) div 20\<close>, the nearest integers to 0.95 m and 1.05 m with a tie going
  up; and every prediction returned has medium > 0 and low \<le> medium \<le> high.
\<close>

theorem band_consistency:
  assumes "predictKCETRank ts cet puc = Inr r"
  shows "(js_lt (lit (3500 / 100)) (composite r) \<and> js_lt (composite r) (lit (9622 / 100)) \<longrightarrow>
            low r = math_round (fmul (medium r) (lit (95 / 100))) \<and>
            high r = math_round (fmul (medium r) (lit (105 / 100))) \<and>
            (\<exists>m. medium r = Fin (of_int m) \<and>
               low r = Fin (of_int ((19 * m + 10) div 20)) \<and>
               high r = Fin (of_int ((21 * m + 10) div 20)))) \<and>
         js_gt (medium r) (Fin 0) \<and> js_le (low r) (medium r) \<and> js_le (medium r) (high r)"
proof -
  obtain v where v: "combinedScore cet puc = Fin v" "0 \<le> v" "v \<le> 100" "firstPass ts (Fin v) = Some r"
    using assms by (rule predict_valid)
  let ?top = "3385440282387415 / 35184372088832 :: rat"
  consider "?top \<le> v" | "v \<le> 35" | "35 < v" "v < ?top" by linarith
  then show ?thesis
  proof cases
    case 1
    then show ?thesis using v(4) firstPass_top [OF 1, of ts] by (auto simp add: js_gt_def lit_normal)
  next
    case 2
    then show ?thesis using v(4) firstPass_bottom [OF 2, of ts] by (auto simp add: js_gt_def lit_normal)
  next
    case 3
    obtain m where m: "r = banded ts (Fin (of_int m)) (Fin v)" "81 \<le> m" "m \<le> 259000"
      using firstPass_interior_Some [OF 3, of ts] v(4) by auto
    have mb: "0 \<le> m" "m \<le> 2 ^ 52" "1 \<le> m" "m \<le> 2 ^ 18" using m(2,3) by simp_all
    obtain l where l: "math_round (fmul (Fin (of_int m)) (lit (95 / 100))) = Fin (of_int l)" "l \<le> m"
      using band_low [OF mb(1,2)] by blast
    obtain h where h: "math_round (fmul (Fin (of_int m)) (lit (105 / 100))) = Fin (of_int h)" "m \<le> h"
      using band_high [OF mb(1,2)] by blast
    have sel: "medium r = Fin (of_int m)"
      "low r = math_round (fmul (Fin (of_int m)) (lit (95 / 100)))"
      "high r = math_round (fmul (Fin (of_int m)) (lit (105 / 100)))"
      by (simp_all add: m(1) banded_sel)
    have ex: "\<exists>n. Fin (rat_of_int m) = Fin (of_int n) \<and>
        math_round (fmul (Fin (of_int m)) (lit (95 / 100))) = Fin (of_int ((19 * n + 10) div 20)) \<and>
        math_round (fmul (Fin (of_int m)) (lit (105 / 100))) = Fin (of_int ((21 * n + 10) div 20))"
      using band_low_exact [OF mb(3,4)] band_high_exact [OF mb(3,4)] by blast
    have ord: "js_gt (Fin (rat_of_int m)) (Fin 0) \<and>
        js_le (math_round (fmul (Fin (of_int m)) (lit (95 / 100)))) (Fin (of_int m)) \<and>
        js_le (Fin (of_int m)) (math_round (fmul (Fin (of_int m)) (lit (105 / 100))))"
      using l(2) h(2) m(2) unfolding l(1) h(1) by (simp add: js_gt_def)
    show ?thesis unfolding sel using ex ord by blast
  qed
qed

theorem band_consistency_witness:
  "predictKCETRank exampleHost (Fin 144) (Fin 80) =
     Inr \<lparr>low = Fin 8075, medium = Fin 8500, high = Fin 8925, composite = Fin 80,
          percentile = Some ''96.73%'', rankBand = Some ''Above Average'',
          competitionLevel = Some ''Moderately High''\<rparr> \<and>
   js_lt (lit (3500 / 100)) (Fin 80) \<and> js_lt (Fin 80) (lit (9622 / 100)) \<and>
   Fin 8075 = math_round (fmul (Fin 8500) (lit (95 / 100))) \<and>
   Fin 8925 = math_round (fmul (Fin 8500) (lit (105 / 100))) \<and>
   (8075 :: int) = (19 * 8500 + 10) div 20 \<and> (8925 :: int) = (21 * 8500 + 10) div 20 \<and>
   js_gt (Fin 8500) (Fin 0) \<and> js_le (Fin 8075) (Fin 8500) \<and> js_le (Fin 8500) (Fin 8925)"
  using band_consistency [OF prediction_144_80 [of exampleHost]]
  by (simp add: prediction_144_80 lit_normal ev js_gt_def)

text \<open>
  C7: for every composite strictly between 35.00 and 96.22 some adjacent pair of the
  calibration table brackets it and the interpolation loop produces a result; so the
  first pass produces a result for every valid composite, and whatever
  \<open>predictKCETRank\<close> returns is the result of the first pass, never of the fallback.
\<close>

theorem fallback_unreachable:
  "(js_lt (lit (3500 / 100)) c \<and> js_lt c (lit (9622 / 100)) \<longrightarrow>
      (\<exists>i. Suc i < length kcet2025RankTable \<and>
         js_le (score (kcet2025RankTable ! Suc i)) c \<and> js_le c (score (kcet2025RankTable ! i))) \<and>
      interpolate ts kcet2025RankTable c \<noteq> None) \<and>
   (valid_composite c \<longrightarrow> firstPass ts c \<noteq> None) \<and>
   (predictKCETRank ts cet puc = Inr r \<longrightarrow> firstPass ts (combinedScore cet puc) = Some r)"
proof (intro conjI impI)
  assume a: "js_lt (lit (3500 / 100)) c \<and> js_lt c (lit (9622 / 100))"
  then obtain v where c: "c = Fin v" by (cases c) (simp_all add: lit_normal)
  have iv: "35 < v" "v < 3385440282387415 / 35184372088832"
    using a unfolding c by (simp_all add: lit_normal)
  obtain m where "firstPass ts (Fin v) = Some (banded ts (Fin (of_int m)) (Fin v))"
    using firstPass_interior_Some [OF iv, of ts] by blast
  then have s: "interpolate ts kcet2025RankTable c = Some (banded ts (Fin (of_int m)) (Fin v))"
    using firstPass_interior [OF iv, of ts] by (simp add: c table_points)
  then show "interpolate ts kcet2025RankTable c \<noteq> None" by simp
  show "\<exists>i. Suc i < length kcet2025RankTable \<and>
         js_le (score (kcet2025RankTable ! Suc i)) c \<and> js_le c (score (kcet2025RankTable ! i))"
    using s by (rule interpolate_index)
next
  assume "valid_composite c"
  then obtain v where v: "c = Fin v" "0 \<le> v" "v \<le> 100" by (rule valid_compositeE)
  show "firstPass ts c \<noteq> None" using firstPass_valid [OF v(2,3), of ts] v(1) by auto
next
  assume "predictKCETRank ts cet puc = Inr r"
  then obtain v where "combinedScore cet puc = Fin v" "firstPass ts (Fin v) = Some r"
    by (rule predict_valid)
  then show "firstPass ts (combinedScore cet puc) = Some r" by simp
qed

theorem fallback_unreachable_witness:
  "js_lt (lit (3500 / 100)) (Fin 80) \<and> js_lt (Fin 80) (lit (9622 / 100)) \<and>
   (\<exists>i. Suc i < length kcet2025RankTable \<and>
      js_le (score (kcet2025RankTable ! Suc i)) (Fin 80) \<and>
      js_le (Fin 80) (score (kcet2025RankTable ! i))) \<and>
   interpolate exampleHost kcet2025RankTable (Fin 80) \<noteq> None \<and>
   valid_composite (Fin 80) \<and> firstPass exampleHost (Fin 80) \<noteq> None \<and>
   (\<exists>r. predictKCETRank exampleHost (Fin 144) (Fin 80) = Inr r \<and>
      firstPass exampleHost (combinedScore (Fin 144) (Fin 80)) = Some r)"
  using fallback_unreachable [of "Fin 80" exampleHost "Fin 144" "Fin 80"]
  by (simp add: prediction_144_80 lit_normal valid_composite_def)

text \<open>
  C8: a category that names a member of \<open>Object.prototype\<close> is neither one of the four keys
  nor defaulted to "general": the property read returns the inherited member, which is
  truthy and has no \<open>find\<close>, and the call throws. For the four keys and for any other name
  the claim holds, and rank 500 in "general" gives "MSRIT, PESIT, BMSIT".
\<close>

theorem getCollegeSuggestions_inherited_key:
  "getCollegeSuggestions (Fin 500) ''constructor'' = Inl TypeError \<and>
   getCollegeSuggestions (Fin 500) ''toString'' = Inl TypeError \<and>
   getCollegeSuggestions (Fin 500) ''unknown''
     = Inr \<lparr>threshold = Some (Fin 1200), name = ''MSRIT, PESIT, BMSIT'', branch = ''CSE, ECE, ISE''\<rparr> \<and>
   getCollegeSuggestions (Fin 500) ''general''
     = Inr \<lparr>threshold = Some (Fin 1200), name = ''MSRIT, PESIT, BMSIT'', branch = ''CSE, ECE, ISE''\<rparr>"
  by (simp add: getCollegeSuggestions_def colleges_def objectPrototypeKeys_def general_def)

text \<open>
  C9: whenever the percentage ((260000 - rank) / 260000) * 100, computed in doubles, is a
  number of magnitude below 10 ^ 21, \<open>calculatePercentile\<close> returns its sign, the decimal
  with two fraction digits nearest to its magnitude, and "%"; that is the case for every
  integer rank of magnitude up to 2 ^ 52; and \<open>calculatePercentile(1000)\<close> is "99.62%".
\<close>

theorem calculatePercentile_two_decimals:
  "(fmul (fdiv (fsub (Fin 260000) r) (Fin 260000)) (Fin 100) = Fin x \<and> \<bar>x\<bar> < 10 ^ 21 \<longrightarrow>
      calculatePercentile ts r = (if x < 0 then ''-'' else '''') @ twoDecimals \<bar>x\<bar> @ ''%'' \<and>
      \<bar>rat_of_nat (nat \<lfloor>\<bar>x\<bar> * 100 + 1 / 2\<rfloor>) / 100 - \<bar>x\<bar>\<bar> \<le> 1 / 200) \<and>
   (\<bar>n\<bar> \<le> 2 ^ 52 \<longrightarrow>
      (\<exists>y. fmul (fdiv (fsub (Fin 260000) (Fin (of_int n))) (Fin 260000)) (Fin 100) = Fin y \<and>
           \<bar>y\<bar> < 10 ^ 21)) \<and>
   calculatePercentile ts (Fin 1000) = ''99.62%''"
proof (intro conjI impI)
  assume a: "fmul (fdiv (fsub (Fin 260000) r) (Fin 260000)) (Fin 100) = Fin x \<and> \<bar>x\<bar> < 10 ^ 21"
  then show "calculatePercentile ts r = (if x < 0 then ''-'' else '''') @ twoDecimals \<bar>x\<bar> @ ''%''"
    using toFixed_two [of x ts] by (simp add: calculatePercentile_def)
  show "\<bar>rat_of_nat (nat \<lfloor>\<bar>x\<bar> * 100 + 1 / 2\<rfloor>) / 100 - \<bar>x\<bar>\<bar> \<le> 1 / 200"
    by (rule nearest_hundredth) simp
next
  assume "\<bar>n\<bar> \<le> 2 ^ 52"
  then show "\<exists>y. fmul (fdiv (fsub (Fin 260000) (Fin (of_int n))) (Fin 260000)) (Fin 100) = Fin y \<and>
           \<bar>y\<bar> < 10 ^ 21"
    by (rule percentage_of_rank)
next
  show "calculatePercentile ts (Fin 1000) = ''99.62%''"
    by (simp add: calculatePercentile_def toFixed_def percentage_1000 showNat_eval floor_frac_rat)
qed

theorem calculatePercentile_two_decimals_witness:
  "fmul (fdiv (fsub (Fin 260000) (Fin 1000)) (Fin 260000)) (Fin 100)
     = Fin (3504904758079803 / 35184372088832) \<and>
   \<bar>3504904758079803 / 35184372088832 :: rat\<bar> < 10 ^ 21 \<and>
   twoDecimals \<bar>3504904758079803 / 35184372088832\<bar> = ''99.62'' \<and>
   calculatePercentile exampleHost (Fin 1000) = ''99.62%'' \<and>
   \<bar>1000 :: int\<bar> \<le> 2 ^ 52"
  using calculatePercentile_two_decimals
    [of "Fin 1000" "3504904758079803 / 35184372088832" exampleHost 1000]
  by (simp add: percentage_1000 twoDecimals_def showNat_eval floor_frac_rat)

text \<open>
  C10: for every prediction whose composite lies strictly between 35.00 and 96.22 the
  medium rank lies between 81 and 259000, and between the ranks of the adjacent pair of
  calibration points that brackets the composite.
\<close>

theorem interior_medium_within_table:
  assumes "predictKCETRank ts cet puc = Inr r"
    and "js_lt (lit (3500 / 100)) (composite r)" "js_lt (composite r) (lit (9622 / 100))"
  shows "js_le (Fin 81) (medium r) \<and> js_le (medium r) (Fin 259000) \<and>
         (\<exists>i. Suc i < length kcet2025RankTable \<and>
            js_le (score (kcet2025RankTable ! Suc i)) (composite r) \<and>
            js_le (composite r) (score (kcet2025RankTable ! i)) \<and>
            js_le (rank (kcet2025RankTable ! i)) (medium r) \<and>
            js_le (medium r) (rank (kcet2025RankTable ! Suc i)))"
proof -
  obtain v i m where f: "composite r = Fin v" "r = banded ts (Fin (of_int m)) (Fin v)"
    "81 \<le> m" "m \<le> 259000" "Suc i < length points"
    "fst (points ! Suc i) \<le> v" "v \<le> fst (points ! i)"
    "snd (points ! i) \<le> m" "m \<le> snd (points ! Suc i)"
    using assms by (rule interior_prediction)
  have med: "medium r = Fin (of_int m)" by (subst f(2)) (simp add: banded_sel)
  have i: "i < length points" using f(5) by simp
  have "kcet2025RankTable ! i = entry (points ! i)" "kcet2025RankTable ! Suc i = entry (points ! Suc i)"
    using i f(5) by (simp_all add: table_points)
  then have "Suc i < length kcet2025RankTable \<and>
            js_le (score (kcet2025RankTable ! Suc i)) (composite r) \<and>
            js_le (composite r) (score (kcet2025RankTable ! i)) \<and>
            js_le (rank (kcet2025RankTable ! i)) (medium r) \<and>
            js_le (medium r) (rank (kcet2025RankTable ! Suc i))"
    using f(5-9) unfolding med f(1) by (simp add: entry_def table_points)
  then have "\<exists>i. Suc i < length kcet2025RankTable \<and>
            js_le (score (kcet2025RankTable ! Suc i)) (composite r) \<and>
            js_le (composite r) (score (kcet2025RankTable ! i)) \<and>
            js_le (rank (kcet2025RankTable ! i)) (medium r) \<and>
            js_le (medium r) (rank (kcet2025RankTable ! Suc i))" by blast
  moreover have "js_le (Fin 81) (medium r) \<and> js_le (medium r) (Fin 259000)"
    unfolding med using f(3,4) by simp
  ultimately show ?thesis by blast
qed

theorem interior_medium_within_table_witness:
  "predictKCETRank exampleHost (Fin 162) (Fin 96) =
     Inr \<lparr>low = Fin 656, medium = Fin 691, high = Fin 726,
          composite = Fin (3251035981008077 / 35184372088832),
          percentile = Some ''99.73%'', rankBand = Some ''Excellent'',
          competitionLevel = Some ''Very High''\<rparr> \<and>
   js_lt (lit (3500 / 100)) (Fin (3251035981008077 / 35184372088832)) \<and>
   js_lt (Fin (3251035981008077 / 35184372088832)) (lit (9622 / 100)) \<and>
   js_le (Fin 81) (Fin 691) \<and> js_le (Fin 691) (Fin 259000) \<and>
   (\<exists>i. Suc i < length kcet2025RankTable \<and>
      js_le (score (kcet2025RankTable ! Suc i)) (Fin (3251035981008077 / 35184372088832)) \<and>
      js_le (Fin (3251035981008077 / 35184372088832)) (score (kcet2025RankTable ! i)) \<and>
      js_le (rank (kcet2025RankTable ! i)) (Fin 691) \<and>
      js_le (Fin 691) (rank (kcet2025RankTable ! Suc i)))"
  using interior_medium_within_table [OF prediction_162_96 [of exampleHost]]
  by (simp add: prediction_162_96 lit_normal)

end
